theory Spec2Isabelle
  imports Complex_Main "HOL-Library.Word" "HOL-Library.Multiset"
begin

section \<open>Channels of golang/\_golang.pyx\<close>

text \<open>
  The Python objects of the module live in three heaps, addressed by natural numbers:
  channels (\<open>pychan\<close>), wait groups (\<open>_WaitGroup\<close>) and waiters
  (\<open>_RecvWaiting\<close>, \<open>_SendWaiting\<close>). A reference is an address; a new
  object takes the next free address. Every lock of the source is a boolean field
  (\<open>True\<close>: held). A critical section runs as one step, so a lock that is found held
  at the start of a step is never released: the acquire blocks forever.
\<close>

type_synonym cid = nat
type_synonym gid = nat
type_synonym wid = nat

text \<open>\<open>g.which\<close>: the winning waiter, or one of the two marker strings of pyselect.\<close>

datatype winner = Waiter wid | TxPrepollWon | RxPrepollWon

record waitgroup =
  waitv :: "wid list"
  sema :: bool
  wg_mu :: bool
  which :: "winner option"

datatype 'a wclass = RecvWaiting | SendWaiting (obj: 'a)

text \<open>
  A received value is \<open>'a option\<close>: \<open>None\<close> is Python's \<open>None\<close>, what a receive
  from a closed channel yields. The attributes \<open>rx_\<close> (here \<open>rx_ok\<close>), \<open>ok\<close>, \<open>sel_n\<close> and
  \<open>sel_commaok\<close> do not exist until they are assigned: \<open>None\<close> is "not set".
\<close>

record 'a waiting =
  group :: gid
  chan :: cid
  cls :: "'a wclass"
  rx_ok :: "('a option \<times> bool) option"
  ok :: "bool option"
  sel_n :: "nat option"
  sel_commaok :: "bool option"

record 'a pychan =
  cap :: nat
  ch_mu :: bool
  dataq :: "'a list"
  recvq :: "wid list"
  sendq :: "wid list"
  closed :: bool

text \<open>\<open>pynilchan\<close> is tested by identity in the source; here it is a tag of the reference.\<close>

datatype chanref = pynilchan | Chan cid

record 'a world =
  chans :: "cid \<Rightarrow> 'a pychan"
  groups :: "gid \<Rightarrow> waitgroup"
  waiters :: "wid \<Rightarrow> 'a waiting"
  nextc :: nat
  nextg :: nat
  nextw :: nat

text \<open>
  Why a call does not return a value: a panic (\<open>_PanicError\<close>), a failed \<open>assert\<close>,
  a read of an attribute or of a deque element that is not there, a block that nothing
  can end, or a suspension in \<open>g.wait()\<close> until the semaphore of \<open>g\<close> is released
  (\<open>Waits g me\<close> for send and recv\_, \<open>SelectWaits g\<close> for pyselect; the flag tells
  whether the call still holds \<open>g._mu\<close>).
\<close>

datatype stop =
    Panic string
  | AssertionError
  | AttributeError
  | IndexError
  | BlocksForever
  | Waits gid wid
  | SelectWaits gid bool

definition chan_upd :: "cid \<Rightarrow> ('a pychan \<Rightarrow> 'a pychan) \<Rightarrow> 'a world \<Rightarrow> 'a world" where
  "chan_upd c f s = s\<lparr>chans := (chans s)(c := f (chans s c))\<rparr>"

definition group_upd :: "gid \<Rightarrow> (waitgroup \<Rightarrow> waitgroup) \<Rightarrow> 'a world \<Rightarrow> 'a world" where
  "group_upd g f s = s\<lparr>groups := (groups s)(g := f (groups s g))\<rparr>"

definition waiter_upd :: "wid \<Rightarrow> ('a waiting \<Rightarrow> 'a waiting) \<Rightarrow> 'a world \<Rightarrow> 'a world" where
  "waiter_upd w f s = s\<lparr>waiters := (waiters s)(w := f (waiters s w))\<rparr>"

definition acquire :: "cid \<Rightarrow> 'a world \<Rightarrow> 'a world" where
  "acquire c = chan_upd c (\<lambda>ch. ch\<lparr>ch_mu := True\<rparr>)"

definition release :: "cid \<Rightarrow> 'a world \<Rightarrow> 'a world" where
  "release c = chan_upd c (\<lambda>ch. ch\<lparr>ch_mu := False\<rparr>)"

subsection \<open>\_WaitGroup and the waiters\<close>

text \<open>\<open>_WaitGroup.__init__\<close>: the semaphore is acquired at once.\<close>

definition new_WaitGroup :: "'a world \<Rightarrow> gid \<times> 'a world" where
  "new_WaitGroup s =
     (nextg s,
      s\<lparr>groups := (groups s)(nextg s := \<lparr>waitv = [], sema = True, wg_mu = False, which = None\<rparr>),
        nextg := Suc (nextg s)\<rparr>)"

definition register :: "gid \<Rightarrow> wid \<Rightarrow> 'a world \<Rightarrow> 'a world" where
  "register g wait = group_upd g (\<lambda>gr. gr\<lparr>waitv := waitv gr @ [wait]\<rparr>)"

definition new_RecvWaiting :: "'a world \<Rightarrow> gid \<Rightarrow> cid \<Rightarrow> wid \<times> 'a world" where
  "new_RecvWaiting s g ch =
     (nextw s,
      register g (nextw s)
        (s\<lparr>waiters := (waiters s)(nextw s :=
              \<lparr>group = g, chan = ch, cls = RecvWaiting, rx_ok = None, ok = None,
               sel_n = None, sel_commaok = None\<rparr>),
           nextw := Suc (nextw s)\<rparr>))"

definition new_SendWaiting :: "'a world \<Rightarrow> gid \<Rightarrow> cid \<Rightarrow> 'a \<Rightarrow> wid \<times> 'a world" where
  "new_SendWaiting s g ch x =
     (nextw s,
      register g (nextw s)
        (s\<lparr>waiters := (waiters s)(nextw s :=
              \<lparr>group = g, chan = ch, cls = SendWaiting x, rx_ok = None, ok = None,
               sel_n = None, sel_commaok = None\<rparr>),
           nextw := Suc (nextw s)\<rparr>))"

text \<open>\<open>_WaitGroup.try_to_win\<close>, under \<open>self._mu\<close>.\<close>

definition try_to_win :: "'a world \<Rightarrow> gid \<Rightarrow> wid \<Rightarrow> (stop + bool) \<times> 'a world" where
  "try_to_win s g waiter =
     (if wg_mu (groups s g) then (Inl BlocksForever, s)
      else if which (groups s g) \<noteq> None then (Inr False, s)
      else (Inr True, group_upd g (\<lambda>gr. gr\<lparr>which := Some (Waiter waiter)\<rparr>) s))"

text \<open>\<open>_WaitGroup.wakeup\<close>: the assertion, then the release of the semaphore.\<close>

definition wg_wakeup :: "'a world \<Rightarrow> gid \<Rightarrow> (stop + unit) \<times> 'a world" where
  "wg_wakeup s g =
     (if which (groups s g) = None then (Inl AssertionError, s)
      else (Inr (), group_upd g (\<lambda>gr. gr\<lparr>sema := False\<rparr>) s))"

text \<open>\<open>_RecvWaiting.wakeup(rx, ok)\<close> and \<open>_SendWaiting.wakeup(ok)\<close>.\<close>

definition recv_wakeup :: "'a world \<Rightarrow> wid \<Rightarrow> 'a option \<Rightarrow> bool \<Rightarrow> (stop + unit) \<times> 'a world" where
  "recv_wakeup s w rx okv =
     (let s1 = waiter_upd w (\<lambda>r. r\<lparr>rx_ok := Some (rx, okv)\<rparr>) s
      in wg_wakeup s1 (group (waiters s1 w)))"

definition send_wakeup :: "'a world \<Rightarrow> wid \<Rightarrow> bool \<Rightarrow> (stop + unit) \<times> 'a world" where
  "send_wakeup s w okv =
     (let s1 = waiter_upd w (\<lambda>r. r\<lparr>ok := Some okv\<rparr>) s
      in wg_wakeup s1 (group (waiters s1 w)))"

text \<open>
  \<open>_dequeWaiter(queue)\<close>: the queue is popped from the left until a waiter wins its
  group. The result comes with what is left of the queue, which the caller stores back
  (the deque is mutated in place in the source).
\<close>

fun dequeWaiter :: "'a world \<Rightarrow> wid list \<Rightarrow> (stop + wid option) \<times> wid list \<times> 'a world" where
  "dequeWaiter s [] = (Inr None, [], s)"
| "dequeWaiter s (w # queue) =
     (case try_to_win s (group (waiters s w)) w of
        (Inl e, s1) \<Rightarrow> (Inl e, queue, s1)
      | (Inr True, s1) \<Rightarrow> (Inr (Some w), queue, s1)
      | (Inr False, s1) \<Rightarrow> dequeWaiter s1 queue)"

subsection \<open>pychan\<close>

definition pychan_init :: "nat \<Rightarrow> 'a pychan" where
  "pychan_init sz =
     \<lparr>cap = sz, ch_mu = False, dataq = [], recvq = [], sendq = [], closed = False\<rparr>"

definition new_pychan :: "'a world \<Rightarrow> nat \<Rightarrow> chanref \<times> 'a world" where
  "new_pychan s sz =
     (Chan (nextc s),
      s\<lparr>chans := (chans s)(nextc s := pychan_init sz), nextc := Suc (nextc s)\<rparr>)"

text \<open>\<open>_blockforever\<close>: a fresh lock is taken twice.\<close>

definition blockforever :: "'a world \<Rightarrow> (stop + 'r) \<times> 'a world" where
  "blockforever s = (Inl BlocksForever, s)"

text \<open>
  \<open>pychan._trysend(obj)\<close>, called with \<open>._mu\<close> held. On \<open>True\<close> and on a panic the
  lock is released, on \<open>False\<close> it is still held.
\<close>

definition trysend :: "'a world \<Rightarrow> cid \<Rightarrow> 'a \<Rightarrow> (stop + bool) \<times> 'a world" where
  "trysend s c x =
     (if closed (chans s c) then (Inl (Panic ''send on closed channel''), release c s)
      else if cap (chans s c) = 0 then
        (case dequeWaiter s (recvq (chans s c)) of (r, q, s1) \<Rightarrow>
           let s2 = chan_upd c (\<lambda>ch. ch\<lparr>recvq := q\<rparr>) s1 in
           (case r of
              Inl e \<Rightarrow> (Inl e, s2)
            | Inr None \<Rightarrow> (Inr False, s2)
            | Inr (Some recvw) \<Rightarrow>
                (case recv_wakeup (release c s2) recvw (Some x) True of
                   (Inl e, s3) \<Rightarrow> (Inl e, s3)
                 | (Inr _, s3) \<Rightarrow> (Inr True, s3))))
      else if length (dataq (chans s c)) \<ge> cap (chans s c) then (Inr False, s)
      else
        (let s0 = chan_upd c (\<lambda>ch. ch\<lparr>dataq := dataq ch @ [x]\<rparr>) s in
         case dequeWaiter s0 (recvq (chans s0 c)) of (r, q, s1) \<Rightarrow>
           let s2 = chan_upd c (\<lambda>ch. ch\<lparr>recvq := q\<rparr>) s1 in
           (case r of
              Inl e \<Rightarrow> (Inl e, s2)
            | Inr None \<Rightarrow> (Inr True, release c s2)
            | Inr (Some recvw) \<Rightarrow>
                (case dataq (chans s2 c) of
                   [] \<Rightarrow> (Inl IndexError, s2)
                 | rx # rest \<Rightarrow>
                     (case recv_wakeup (release c (chan_upd c (\<lambda>ch. ch\<lparr>dataq := rest\<rparr>) s2))
                             recvw (Some rx) True of
                        (Inl e, s3) \<Rightarrow> (Inl e, s3)
                      | (Inr _, s3) \<Rightarrow> (Inr True, s3))))))"

text \<open>
  \<open>pychan._tryrecv()\<close>, called with \<open>._mu\<close> held; the result is \<open>(rx_ok, ok)\<close> with
  \<open>rx_ok = (rx, ok)\<close>. The lock is released unless the outer \<open>ok\<close> is \<open>False\<close>.
\<close>

definition tryrecv :: "'a world \<Rightarrow> cid \<Rightarrow> (stop + (('a option \<times> bool) \<times> bool)) \<times> 'a world" where
  "tryrecv s c =
     (case dataq (chans s c) of
        rx # rest \<Rightarrow>
          (let s0 = chan_upd c (\<lambda>ch. ch\<lparr>dataq := rest\<rparr>) s in
           case dequeWaiter s0 (sendq (chans s0 c)) of (r, q, s1) \<Rightarrow>
             let s2 = chan_upd c (\<lambda>ch. ch\<lparr>sendq := q\<rparr>) s1 in
             (case r of
                Inl e \<Rightarrow> (Inl e, s2)
              | Inr None \<Rightarrow> (Inr ((Some rx, True), True), release c s2)
              | Inr (Some sendw) \<Rightarrow>
                  (case cls (waiters s2 sendw) of
                     RecvWaiting \<Rightarrow> (Inl AttributeError, s2)
                   | SendWaiting y \<Rightarrow>
                       (case send_wakeup
                               (release c (chan_upd c (\<lambda>ch. ch\<lparr>dataq := dataq ch @ [y]\<rparr>) s2))
                               sendw True of
                          (Inl e, s3) \<Rightarrow> (Inl e, s3)
                        | (Inr _, s3) \<Rightarrow> (Inr ((Some rx, True), True), s3)))))
      | [] \<Rightarrow>
          if closed (chans s c) then (Inr ((None, False), True), release c s)
          else
            (case dequeWaiter s (sendq (chans s c)) of (r, q, s1) \<Rightarrow>
               let s2 = chan_upd c (\<lambda>ch. ch\<lparr>sendq := q\<rparr>) s1 in
               (case r of
                  Inl e \<Rightarrow> (Inl e, s2)
                | Inr None \<Rightarrow> (Inr ((None, False), False), s2)
                | Inr (Some sendw) \<Rightarrow>
                    (case cls (waiters s2 sendw) of
                       RecvWaiting \<Rightarrow> (Inl AttributeError, release c s2)
                     | SendWaiting y \<Rightarrow>
                         (case send_wakeup (release c s2) sendw True of
                            (Inl e, s3) \<Rightarrow> (Inl e, s3)
                          | (Inr _, s3) \<Rightarrow> (Inr ((Some y, True), True), s3))))))"

text \<open>
  \<open>pychan.send(obj)\<close> up to \<open>g.wait()\<close>: the result \<open>Waits g me\<close> is the sender
  parked in \<open>_sendq\<close>. \<open>send_wait\<close> is the rest of the method, run when the task is
  scheduled again: it stays in \<open>g.wait()\<close> as long as the semaphore is held.
\<close>

definition send :: "'a world \<Rightarrow> chanref \<Rightarrow> 'a \<Rightarrow> (stop + unit) \<times> 'a world" where
  "send s self x =
     (case self of
        pynilchan \<Rightarrow> blockforever s
      | Chan c \<Rightarrow>
          if ch_mu (chans s c) then (Inl BlocksForever, s)
          else
            (case trysend (acquire c s) c x of
               (Inl e, s1) \<Rightarrow> (Inl e, s1)
             | (Inr True, s1) \<Rightarrow> (Inr (), s1)
             | (Inr False, s1) \<Rightarrow>
                 (case new_WaitGroup s1 of (g, s2) \<Rightarrow>
                  case new_SendWaiting s2 g c x of (me, s3) \<Rightarrow>
                    (Inl (Waits g me),
                     release c (chan_upd c (\<lambda>ch. ch\<lparr>sendq := sendq ch @ [me]\<rparr>) s3)))))"

definition send_wait :: "'a world \<Rightarrow> gid \<Rightarrow> wid \<Rightarrow> (stop + unit) \<times> 'a world" where
  "send_wait s g me =
     (if sema (groups s g) then (Inl (Waits g me), s)
      else
        (let s1 = group_upd g (\<lambda>gr. gr\<lparr>sema := True\<rparr>) s in
         if which (groups s1 g) \<noteq> Some (Waiter me) then (Inl AssertionError, s1)
         else
           (case ok (waiters s1 me) of
              None \<Rightarrow> (Inl AttributeError, s1)
            | Some False \<Rightarrow> (Inl (Panic ''send on closed channel''), s1)
            | Some True \<Rightarrow> (Inr (), s1))))"

text \<open>\<open>pychan.recv_()\<close> (here \<open>recv_ok\<close>), split at \<open>g.wait()\<close> in the same way.\<close>

definition recv_ok :: "'a world \<Rightarrow> chanref \<Rightarrow> (stop + ('a option \<times> bool)) \<times> 'a world" where
  "recv_ok s self =
     (case self of
        pynilchan \<Rightarrow> blockforever s
      | Chan c \<Rightarrow>
          if ch_mu (chans s c) then (Inl BlocksForever, s)
          else
            (case tryrecv (acquire c s) c of
               (Inl e, s1) \<Rightarrow> (Inl e, s1)
             | (Inr (rx, True), s1) \<Rightarrow> (Inr rx, s1)
             | (Inr (rx, False), s1) \<Rightarrow>
                 (case new_WaitGroup s1 of (g, s2) \<Rightarrow>
                  case new_RecvWaiting s2 g c of (me, s3) \<Rightarrow>
                    (Inl (Waits g me),
                     release c (chan_upd c (\<lambda>ch. ch\<lparr>recvq := recvq ch @ [me]\<rparr>) s3)))))"

definition recv_wait :: "'a world \<Rightarrow> gid \<Rightarrow> wid \<Rightarrow> (stop + ('a option \<times> bool)) \<times> 'a world" where
  "recv_wait s g me =
     (if sema (groups s g) then (Inl (Waits g me), s)
      else
        (let s1 = group_upd g (\<lambda>gr. gr\<lparr>sema := True\<rparr>) s in
         if which (groups s1 g) \<noteq> Some (Waiter me) then (Inl AssertionError, s1)
         else
           (case rx_ok (waiters s1 me) of
              None \<Rightarrow> (Inl AttributeError, s1)
            | Some rx \<Rightarrow> (Inr rx, s1))))"

text \<open>\<open>pychan.recv()\<close> and \<open>pychan.__len__()\<close>.\<close>

definition recv :: "'a world \<Rightarrow> chanref \<Rightarrow> (stop + 'a option) \<times> 'a world" where
  "recv s self = (case recv_ok s self of (Inl e, s1) \<Rightarrow> (Inl e, s1) | (Inr (rx, _), s1) \<Rightarrow> (Inr rx, s1))"

definition len :: "'a world \<Rightarrow> cid \<Rightarrow> nat" where
  "len s c = length (dataq (chans s c))"

text \<open>
  \<open>pychan.close()\<close>. The two \<open>while 1\<close> loops collect the waiters that win their
  group; the wakeups run after the lock is released.
\<close>

lemma dequeWaiter_shorter:
  "dequeWaiter s queue = (Inr (Some w), q, s1) \<Longrightarrow> length q < length queue"
proof (induction s queue rule: dequeWaiter.induct)
  case (1 s)
  then show ?case by simp
next
  case (2 s w' queue)
  then show ?case
    by (fastforce split: prod.splits sum.splits bool.splits)
qed

function close_drain ::
  "'a world \<Rightarrow> wid list \<Rightarrow> wid list \<Rightarrow> (stop + wid list) \<times> wid list \<times> 'a world" where
  "close_drain s queue acc =
     (case dequeWaiter s queue of
        (Inl e, q, s1) \<Rightarrow> (Inl e, q, s1)
      | (Inr None, q, s1) \<Rightarrow> (Inr acc, q, s1)
      | (Inr (Some w), q, s1) \<Rightarrow> close_drain s1 q (acc @ [w]))"
  by pat_completeness auto
termination
  by (relation "measure (\<lambda>(s, queue, acc). length queue)") (auto dest: dequeWaiter_shorter [OF sym])

declare close_drain.simps [simp del]

fun wakeup_recvv :: "'a world \<Rightarrow> wid list \<Rightarrow> (stop + unit) \<times> 'a world" where
  "wakeup_recvv s [] = (Inr (), s)"
| "wakeup_recvv s (w # ws) =
     (case recv_wakeup s w None False of
        (Inl e, s1) \<Rightarrow> (Inl e, s1)
      | (Inr _, s1) \<Rightarrow> wakeup_recvv s1 ws)"

fun wakeup_sendv :: "'a world \<Rightarrow> wid list \<Rightarrow> (stop + unit) \<times> 'a world" where
  "wakeup_sendv s [] = (Inr (), s)"
| "wakeup_sendv s (w # ws) =
     (case send_wakeup s w False of
        (Inl e, s1) \<Rightarrow> (Inl e, s1)
      | (Inr _, s1) \<Rightarrow> wakeup_sendv s1 ws)"

definition close :: "'a world \<Rightarrow> chanref \<Rightarrow> (stop + unit) \<times> 'a world" where
  "close s self =
     (case self of
        pynilchan \<Rightarrow> (Inl (Panic ''close of nil channel''), s)
      | Chan c \<Rightarrow>
          if ch_mu (chans s c) then (Inl BlocksForever, s)
          else if closed (chans s c) then (Inl (Panic ''close of closed channel''), s)
          else
            (let s0 = chan_upd c (\<lambda>ch. ch\<lparr>closed := True\<rparr>) (acquire c s) in
             case close_drain s0 (recvq (chans s0 c)) [] of (r1, q1, s1) \<Rightarrow>
               let s2 = chan_upd c (\<lambda>ch. ch\<lparr>recvq := q1\<rparr>) s1 in
               (case r1 of
                  Inl e \<Rightarrow> (Inl e, s2)
                | Inr recvv \<Rightarrow>
                    (case close_drain s2 (sendq (chans s2 c)) [] of (r2, q2, s3) \<Rightarrow>
                       let s4 = chan_upd c (\<lambda>ch. ch\<lparr>sendq := q2\<rparr>) s3 in
                       (case r2 of
                          Inl e \<Rightarrow> (Inl e, s4)
                        | Inr sendv \<Rightarrow>
                            (case wakeup_recvv (release c s4) recvv of
                               (Inl e, s5) \<Rightarrow> (Inl e, s5)
                             | (Inr _, s5) \<Rightarrow> wakeup_sendv s5 sendv))))))"

subsection \<open>pyselect\<close>

text \<open>
  A case of pyselect: \<open>pydefault\<close>, \<open>(ch.send, tx)\<close>, \<open>ch.recv\<close> (\<open>CaseRecv ch False\<close>)
  or \<open>ch.recv_\<close> (\<open>CaseRecv ch True\<close>), and the four shapes the source panics on:
  a tuple whose first part is not a method of a pychan or not \<open>send\<close>, and another
  object that is not a method of a pychan or neither \<open>recv\<close> nor \<open>recv_\<close>.
\<close>

datatype 'a selcase =
    pydefault
  | CaseSend chanref 'a
  | CaseRecv chanref bool
  | SendNonChan
  | SendExpected
  | RecvNonChan
  | RecvExpected

text \<open>
  What pyselect returns beside the case number: \<open>None\<close> or a received object
  (\<open>PyVal\<close>), or the pair \<open>(rx, ok)\<close> for a \<open>recv_\<close> case.
\<close>

datatype 'a pyrx = PyVal "'a option" | PyTuple "'a option" bool

definition unpack :: "bool \<Rightarrow> 'a option \<times> bool \<Rightarrow> 'a pyrx" where
  "unpack commaok rxok = (if commaok then PyTuple (fst rxok) (snd rxok) else PyVal (fst rxok))"

datatype 'a polled =
    Selected nat "'a pyrx"
  | Pending "(nat \<times> cid \<times> bool) list" "(nat \<times> cid \<times> 'a) list" "nat option"

text \<open>The first pass over the shuffled cases; \<open>Pending recvv sendv ndefault\<close> when no case was ready.\<close>

fun poll ::
  "'a world \<Rightarrow> (nat \<times> 'a selcase) list \<Rightarrow> (nat \<times> cid \<times> bool) list \<Rightarrow> (nat \<times> cid \<times> 'a) list
     \<Rightarrow> nat option \<Rightarrow> (stop + 'a polled) \<times> 'a world" where
  "poll s [] recvv sendv ndefault = (Inr (Pending recvv sendv ndefault), s)"
| "poll s ((n, pydefault) # rest) recvv sendv ndefault =
     (if ndefault \<noteq> None then (Inl (Panic ''pyselect: multiple default''), s)
      else poll s rest recvv sendv (Some n))"
| "poll s ((n, SendNonChan) # rest) recvv sendv ndefault =
     (Inl (Panic ''pyselect: send on non-chan''), s)"
| "poll s ((n, SendExpected) # rest) recvv sendv ndefault =
     (Inl (Panic ''pyselect: send expected''), s)"
| "poll s ((n, CaseSend pynilchan tx) # rest) recvv sendv ndefault =
     poll s rest recvv sendv ndefault"
| "poll s ((n, CaseSend (Chan c) tx) # rest) recvv sendv ndefault =
     (if ch_mu (chans s c) then (Inl BlocksForever, s)
      else
        (case trysend (acquire c s) c tx of
           (Inl e, s1) \<Rightarrow> (Inl e, s1)
         | (Inr True, s1) \<Rightarrow> (Inr (Selected n (PyVal None)), s1)
         | (Inr False, s1) \<Rightarrow> poll (release c s1) rest recvv (sendv @ [(n, c, tx)]) ndefault))"
| "poll s ((n, RecvNonChan) # rest) recvv sendv ndefault =
     (Inl (Panic ''pyselect: recv on non-chan''), s)"
| "poll s ((n, RecvExpected) # rest) recvv sendv ndefault =
     (Inl (Panic ''pyselect: recv expected''), s)"
| "poll s ((n, CaseRecv pynilchan commaok) # rest) recvv sendv ndefault =
     poll s rest recvv sendv ndefault"
| "poll s ((n, CaseRecv (Chan c) commaok) # rest) recvv sendv ndefault =
     (if ch_mu (chans s c) then (Inl BlocksForever, s)
      else
        (case tryrecv (acquire c s) c of
           (Inl e, s1) \<Rightarrow> (Inl e, s1)
         | (Inr (rxok, True), s1) \<Rightarrow> (Inr (Selected n (unpack commaok rxok)), s1)
         | (Inr (rxok, False), s1) \<Rightarrow>
             poll (release c s1) rest (recvv @ [(n, c, commaok)]) sendv ndefault))"

text \<open>
  \<open>selected()\<close>: \<open>g.wait()\<close>, then the result is read off the winner. \<open>held\<close> tells
  whether the caller is inside \<open>with g._mu\<close>; it is kept in the suspension.
\<close>

definition selected :: "'a world \<Rightarrow> gid \<Rightarrow> bool \<Rightarrow> (stop + nat \<times> 'a pyrx) \<times> 'a world" where
  "selected s g held =
     (if sema (groups s g) then (Inl (SelectWaits g held), s)
      else
        (let s1 = group_upd g (\<lambda>gr. gr\<lparr>sema := True\<rparr>) s in
         case which (groups s1 g) of
           Some (Waiter sel) \<Rightarrow>
             (case cls (waiters s1 sel) of
                SendWaiting _ \<Rightarrow>
                  (case ok (waiters s1 sel) of
                     None \<Rightarrow> (Inl AttributeError, s1)
                   | Some False \<Rightarrow> (Inl (Panic ''send on closed channel''), s1)
                   | Some True \<Rightarrow>
                       (case sel_n (waiters s1 sel) of
                          None \<Rightarrow> (Inl AttributeError, s1)
                        | Some n \<Rightarrow> (Inr (n, PyVal None), s1)))
              | RecvWaiting \<Rightarrow>
                  (case (rx_ok (waiters s1 sel), sel_commaok (waiters s1 sel), sel_n (waiters s1 sel)) of
                     (Some rxok, Some commaok, Some n) \<Rightarrow> (Inr (n, unpack commaok rxok), s1)
                   | _ \<Rightarrow> (Inl AttributeError, s1)))
         | _ \<Rightarrow> (Inl AssertionError, s1)))"

text \<open>
  Leaving \<open>with g._mu\<close>: the lock is released when the block returns or raises; a task
  that is stuck or suspended inside the block keeps it.
\<close>

definition unlock_g :: "gid \<Rightarrow> 'a world \<Rightarrow> 'a world" where
  "unlock_g g = group_upd g (\<lambda>gr. gr\<lparr>wg_mu := False\<rparr>)"

fun suspended :: "stop \<Rightarrow> bool" where
  "suspended BlocksForever = True"
| "suspended (Waits g w) = True"
| "suspended (SelectWaits g held) = True"
| "suspended _ = False"

definition leave_with :: "gid \<Rightarrow> (stop + 'r) \<times> 'a world \<Rightarrow> (stop + 'r) \<times> 'a world" where
  "leave_with g rs =
     (case rs of
        (Inl e, s) \<Rightarrow> (Inl e, if suspended e then s else unlock_g g s)
      | (Inr r, s) \<Rightarrow> (Inr r, unlock_g g s))"

text \<open>
  The second pass, one loop for \<open>sendv\<close> and one for \<open>recvv\<close>: \<open>Inr (Some r)\<close> is a
  \<open>return r\<close> out of the loop, \<open>Inr None\<close> the end of the loop.
\<close>

fun subscribe_send ::
  "'a world \<Rightarrow> gid \<Rightarrow> (nat \<times> cid \<times> 'a) list \<Rightarrow> (stop + (nat \<times> 'a pyrx) option) \<times> 'a world" where
  "subscribe_send s g [] = (Inr None, s)"
| "subscribe_send s g ((n, c, tx) # rest) =
     (if ch_mu (chans s c) then (Inl BlocksForever, s)
      else if wg_mu (groups s g) then (Inl BlocksForever, acquire c s)
      else
        (let s1 = group_upd g (\<lambda>gr. gr\<lparr>wg_mu := True\<rparr>) (acquire c s) in
         if which (groups s1 g) \<noteq> None then
           leave_with g
             (case selected (release c s1) g True of
                (Inl e, s2) \<Rightarrow> (Inl e, s2)
              | (Inr r, s2) \<Rightarrow> (Inr (Some r), s2))
         else
           (case trysend s1 c tx of
              (Inl e, s2) \<Rightarrow> leave_with g (Inl e, s2)
            | (Inr True, s2) \<Rightarrow>
                leave_with g
                  (Inr (Some (n, PyVal None)), group_upd g (\<lambda>gr. gr\<lparr>which := Some TxPrepollWon\<rparr>) s2)
            | (Inr False, s2) \<Rightarrow>
                (case new_SendWaiting s2 g c tx of (w, s3) \<Rightarrow>
                   subscribe_send
                     (release c (unlock_g g
                        (chan_upd c (\<lambda>ch. ch\<lparr>sendq := sendq ch @ [w]\<rparr>)
                           (waiter_upd w (\<lambda>r. r\<lparr>sel_n := Some n\<rparr>) s3))))
                     g rest))))"

fun subscribe_recv ::
  "'a world \<Rightarrow> gid \<Rightarrow> (nat \<times> cid \<times> bool) list \<Rightarrow> (stop + (nat \<times> 'a pyrx) option) \<times> 'a world" where
  "subscribe_recv s g [] = (Inr None, s)"
| "subscribe_recv s g ((n, c, commaok) # rest) =
     (if ch_mu (chans s c) then (Inl BlocksForever, s)
      else if wg_mu (groups s g) then (Inl BlocksForever, acquire c s)
      else
        (let s1 = group_upd g (\<lambda>gr. gr\<lparr>wg_mu := True\<rparr>) (acquire c s) in
         if which (groups s1 g) \<noteq> None then
           leave_with g
             (case selected (release c s1) g True of
                (Inl e, s2) \<Rightarrow> (Inl e, s2)
              | (Inr r, s2) \<Rightarrow> (Inr (Some r), s2))
         else
           (case tryrecv s1 c of
              (Inl e, s2) \<Rightarrow> leave_with g (Inl e, s2)
            | (Inr (rxok, True), s2) \<Rightarrow>
                leave_with g
                  (Inr (Some (n, unpack commaok rxok)),
                   group_upd g (\<lambda>gr. gr\<lparr>which := Some RxPrepollWon\<rparr>) s2)
            | (Inr (rxok, False), s2) \<Rightarrow>
                (case new_RecvWaiting s2 g c of (w, s3) \<Rightarrow>
                   subscribe_recv
                     (release c (unlock_g g
                        (chan_upd c (\<lambda>ch. ch\<lparr>recvq := recvq ch @ [w]\<rparr>)
                           (waiter_upd w (\<lambda>r. r\<lparr>sel_n := Some n, sel_commaok := Some commaok\<rparr>) s3))))
                     g rest))))"

text \<open>\<open>_WaitGroup.dequeAll\<close>: \<open>queue.remove(w)\<close> drops the first occurrence, if any.\<close>

fun dequeAll_loop :: "'a world \<Rightarrow> wid list \<Rightarrow> (stop + unit) \<times> 'a world" where
  "dequeAll_loop s [] = (Inr (), s)"
| "dequeAll_loop s (w # ws) =
     (let c = chan (waiters s w) in
      if ch_mu (chans s c) then (Inl BlocksForever, s)
      else
        dequeAll_loop
          (chan_upd c
             (\<lambda>ch. case cls (waiters s w) of
                      SendWaiting _ \<Rightarrow> ch\<lparr>sendq := remove1 w (sendq ch)\<rparr>
                    | RecvWaiting \<Rightarrow> ch\<lparr>recvq := remove1 w (recvq ch)\<rparr>) s)
          ws)"

definition dequeAll :: "'a world \<Rightarrow> gid \<Rightarrow> (stop + unit) \<times> 'a world" where
  "dequeAll s g = dequeAll_loop s (waitv (groups s g))"

text \<open>
  The \<open>try ... finally: g.dequeAll()\<close> around the second pass: the clause runs when
  the body returns or raises, not while the task is stuck or suspended in it.
\<close>

definition finally_dequeAll :: "gid \<Rightarrow> (stop + 'r) \<times> 'a world \<Rightarrow> (stop + 'r) \<times> 'a world" where
  "finally_dequeAll g rs =
     (case rs of
        (Inl e, s) \<Rightarrow>
          if suspended e then (Inl e, s)
          else (case dequeAll s g of (Inl e', s1) \<Rightarrow> (Inl e', s1) | (Inr _, s1) \<Rightarrow> (Inl e, s1))
      | (Inr r, s) \<Rightarrow>
          (case dequeAll s g of (Inl e', s1) \<Rightarrow> (Inl e', s1) | (Inr _, s1) \<Rightarrow> (Inr r, s1)))"

definition second_pass ::
  "'a world \<Rightarrow> gid \<Rightarrow> (nat \<times> cid \<times> 'a) list \<Rightarrow> (nat \<times> cid \<times> bool) list
     \<Rightarrow> (stop + nat \<times> 'a pyrx) \<times> 'a world" where
  "second_pass s g sendv recvv =
     (case subscribe_send s g sendv of
        (Inl e, s1) \<Rightarrow> (Inl e, s1)
      | (Inr (Some r), s1) \<Rightarrow> (Inr r, s1)
      | (Inr None, s1) \<Rightarrow>
          (case subscribe_recv s1 g recvv of
             (Inl e, s2) \<Rightarrow> (Inl e, s2)
           | (Inr (Some r), s2) \<Rightarrow> (Inr r, s2)
           | (Inr None, s2) \<Rightarrow> selected s2 g False))"

text \<open>
  \<open>pyselect(*casev)\<close>. \<open>shuffle\<close> is what \<open>random.shuffle\<close> does to the numbered cases
  in this call: some permutation of the list.
\<close>

definition pyselect ::
  "'a world \<Rightarrow> ((nat \<times> 'a selcase) list \<Rightarrow> (nat \<times> 'a selcase) list) \<Rightarrow> 'a selcase list
     \<Rightarrow> (stop + nat \<times> 'a pyrx) \<times> 'a world" where
  "pyselect s shuffle casev =
     (case poll s (shuffle (enumerate 0 casev)) [] [] None of
        (Inl e, s1) \<Rightarrow> (Inl e, s1)
      | (Inr (Selected n rx), s1) \<Rightarrow> (Inr (n, rx), s1)
      | (Inr (Pending recvv sendv ndefault), s1) \<Rightarrow>
          (case ndefault of
             Some n \<Rightarrow> (Inr (n, PyVal None), s1)
           | None \<Rightarrow>
               if length recvv + length sendv = 0 then blockforever s1
               else
                 (case new_WaitGroup s1 of (g, s2) \<Rightarrow>
                    finally_dequeAll g (second_pass s2 g sendv recvv))))"

text \<open>
  The rest of a pyselect that was suspended in \<open>selected()\<close>, run when the task is
  scheduled again.
\<close>

definition pyselect_wait :: "'a world \<Rightarrow> gid \<Rightarrow> bool \<Rightarrow> (stop + nat \<times> 'a pyrx) \<times> 'a world" where
  "pyselect_wait s g held =
     finally_dequeAll g (if held then leave_with g (selected s g True) else selected s g False)"

text \<open>The world before any object is made: every address holds a blank object.\<close>

definition world0 :: "'a world" where
  "world0 =
     \<lparr>chans = (\<lambda>_. pychan_init 0),
      groups = (\<lambda>_. \<lparr>waitv = [], sema = True, wg_mu = False, which = None\<rparr>),
      waiters = (\<lambda>_. \<lparr>group = 0, chan = 0, cls = RecvWaiting, rx_ok = None, ok = None,
                       sel_n = None, sel_commaok = None\<rparr>),
      nextc = 0, nextg = 0, nextw = 0\<rparr>"

section \<open>Frame facts about the channel operations\<close>

lemma chans_chan_upd [simp]:
  "chans (chan_upd c f s) c' = (if c' = c then f (chans s c) else chans s c')"
  by (simp add: chan_upd_def)

lemma chan_upd_other [simp]:
  "groups (chan_upd c f s) = groups s" "waiters (chan_upd c f s) = waiters s"
  "nextc (chan_upd c f s) = nextc s" "nextg (chan_upd c f s) = nextg s"
  "nextw (chan_upd c f s) = nextw s"
  by (simp_all add: chan_upd_def)

lemma chans_acquire [simp]:
  "chans (acquire c s) c' = (if c' = c then (chans s c)\<lparr>ch_mu := True\<rparr> else chans s c')"
  by (simp add: acquire_def)

lemma chans_release [simp]:
  "chans (release c s) c' = (if c' = c then (chans s c)\<lparr>ch_mu := False\<rparr> else chans s c')"
  by (simp add: release_def)

lemma acquire_other [simp]:
  "groups (acquire c s) = groups s" "waiters (acquire c s) = waiters s"
  "nextc (acquire c s) = nextc s" "nextg (acquire c s) = nextg s"
  "nextw (acquire c s) = nextw s"
  by (simp_all add: acquire_def)

lemma release_other [simp]:
  "groups (release c s) = groups s" "waiters (release c s) = waiters s"
  "nextc (release c s) = nextc s" "nextg (release c s) = nextg s"
  "nextw (release c s) = nextw s"
  by (simp_all add: release_def)

lemma release_acquire: "\<not> ch_mu (chans s c) \<Longrightarrow> release c (acquire c s) = s"
  by (simp add: release_def acquire_def chan_upd_def fun_upd_idem)

lemma group_upd_simps [simp]:
  "groups (group_upd g f s) g' = (if g' = g then f (groups s g) else groups s g')"
  "chans (group_upd g f s) = chans s" "waiters (group_upd g f s) = waiters s"
  "nextc (group_upd g f s) = nextc s" "nextg (group_upd g f s) = nextg s"
  "nextw (group_upd g f s) = nextw s"
  by (simp_all add: group_upd_def)

lemma waiter_upd_simps [simp]:
  "waiters (waiter_upd w f s) w' = (if w' = w then f (waiters s w) else waiters s w')"
  "chans (waiter_upd w f s) = chans s" "groups (waiter_upd w f s) = groups s"
  "nextc (waiter_upd w f s) = nextc s" "nextg (waiter_upd w f s) = nextg s"
  "nextw (waiter_upd w f s) = nextw s"
  by (simp_all add: waiter_upd_def)

lemma try_to_win_frame:
  "try_to_win s g w = (r, s1) \<Longrightarrow> chans s1 = chans s \<and> waiters s1 = waiters s
     \<and> nextc s1 = nextc s \<and> nextg s1 = nextg s \<and> nextw s1 = nextw s"
  by (auto simp: try_to_win_def split: if_splits)

lemma dequeWaiter_frame:
  "dequeWaiter s queue = (r, q, s1) \<Longrightarrow> chans s1 = chans s \<and> waiters s1 = waiters s
     \<and> nextc s1 = nextc s \<and> nextg s1 = nextg s \<and> nextw s1 = nextw s"
proof (induction s queue rule: dequeWaiter.induct)
  case (1 s)
  then show ?case by simp
next
  case (2 s w queue)
  show ?case
  proof (cases "try_to_win s (group (waiters s w)) w")
    case (Pair a s')
    note fr = try_to_win_frame [OF Pair]
    show ?thesis
    proof (cases a)
      case (Inl e)
      with 2 Pair fr show ?thesis by simp
    next
      case (Inr b)
      with 2 Pair fr show ?thesis by (cases b) auto
    qed
  qed
qed

lemma dequeWaiter_None:
  "dequeWaiter s queue = (Inr None, q, s1) \<Longrightarrow> q = []"
proof (induction s queue rule: dequeWaiter.induct)
  case (1 s)
  then show ?case by simp
next
  case (2 s w queue)
  then show ?case by (fastforce split: prod.splits sum.splits bool.splits)
qed

lemma wg_wakeup_frame:
  "wg_wakeup s g = (r, s1) \<Longrightarrow> chans s1 = chans s \<and> waiters s1 = waiters s
     \<and> nextc s1 = nextc s \<and> nextg s1 = nextg s \<and> nextw s1 = nextw s"
  by (auto simp: wg_wakeup_def split: if_splits)

lemma recv_wakeup_chans: "recv_wakeup s w rx okv = (r, s1) \<Longrightarrow> chans s1 = chans s"
  by (auto simp: recv_wakeup_def Let_def dest!: wg_wakeup_frame)

lemma send_wakeup_chans: "send_wakeup s w okv = (r, s1) \<Longrightarrow> chans s1 = chans s"
  by (auto simp: send_wakeup_def Let_def dest!: wg_wakeup_frame)

definition backlog :: "'a world \<Rightarrow> cid \<Rightarrow> nat" where
  "backlog s c = length (dataq (chans s c)) + length (sendq (chans s c))"

lemma tryrecv_backlog:
  assumes "dataq (chans s c) \<noteq> []" and "tryrecv s c = (Inr r, s1)"
  shows "backlog s1 c < backlog s c"
proof -
  obtain rx rest where d: "dataq (chans s c) = rx # rest"
    using assms(1) by (cases "dataq (chans s c)") auto
  define s0 where "s0 = chan_upd c (\<lambda>ch. ch\<lparr>dataq := rest\<rparr>) s"
  obtain a q s' where dq: "dequeWaiter s0 (sendq (chans s0 c)) = (a, q, s')"
    by (cases "dequeWaiter s0 (sendq (chans s0 c))") auto
  have fr: "chans s' = chans s0" using dequeWaiter_frame [OF dq] by simp
  show ?thesis
  proof (cases a)
    case (Inl e)
    with assms(2) d dq show ?thesis by (simp add: tryrecv_def s0_def)
  next
    case (Inr opt)
    show ?thesis
    proof (cases opt)
      case None
      with Inr dq have "q = []" using dequeWaiter_None by blast
      with assms(2) d dq Inr None fr show ?thesis
        by (auto simp: tryrecv_def s0_def backlog_def)
    next
      case (Some w)
      with Inr dq have "length q < length (sendq (chans s0 c))" using dequeWaiter_shorter by blast
      with assms(2) d dq Inr Some fr show ?thesis
        by (auto simp: tryrecv_def s0_def backlog_def Let_def split: wclass.splits prod.splits sum.splits dest!: send_wakeup_chans)
    qed
  qed
qed

text \<open>
  The backlog of a channel: what is buffered and who waits to send. Each receive from a
  non-empty buffer makes it smaller, which is why the drain loops of the timers end.
\<close>

lemma recv_backlog:
  assumes "dataq (chans s c) \<noteq> []" and "recv s (Chan c) = (Inr r, s1)"
  shows "backlog s1 c < backlog s c"
proof -
  have nm: "\<not> ch_mu (chans s c)"
    using assms(2) by (auto simp: recv_def recv_ok_def split: if_splits)
  obtain a s' where tr: "tryrecv (acquire c s) c = (a, s')"
    by (cases "tryrecv (acquire c s) c") auto
  have d: "dataq (chans (acquire c s) c) \<noteq> []" using assms(1) by simp
  have same: "backlog (acquire c s) c = backlog s c" by (simp add: backlog_def)
  show ?thesis
  proof (cases a)
    case (Inl e)
    with assms(2) nm tr show ?thesis by (simp add: recv_def recv_ok_def)
  next
    case (Inr b)
    have "backlog s' c < backlog (acquire c s) c"
      using tryrecv_backlog [OF d] tr Inr by simp
    moreover have "s1 = s'"
      using assms(2) nm tr Inr
      by (auto simp: recv_def recv_ok_def new_WaitGroup_def new_RecvWaiting_def
               split: prod.splits bool.splits)
    ultimately show ?thesis using same by simp
  qed
qed

section \<open>Timers of golang/\_time.pyx\<close>

text \<open>
  A C \<open>double\<close>, as far as the module looks at it: a finite value, the two infinities
  and NaN. \<open>self._dt == INFINITY\<close> is equality with \<open>PInf\<close>; \<open>dt <= 0\<close> is false for
  NaN.
\<close>

datatype double = Fin real | PInf | NInf | NaN

fun le_zero :: "double \<Rightarrow> bool" where
  "le_zero (Fin r) = (r \<le> 0)"
| "le_zero NInf = True"
| "le_zero PInf = False"
| "le_zero NaN = False"

text \<open>
  The timers send on \<open>self.c.chan_double()\<close>, the channel under the pychan, with its C
  methods \<open>len\<close>, \<open>recv\<close> and \<open>send\<close>. The C channel is not part of these sources; the
  channel of \_golang.pyx stands for it, \<open>len\<close> of the nil channel being 0.
\<close>

fun chan_len :: "'a world \<Rightarrow> chanref \<Rightarrow> nat" where
  "chan_len s pynilchan = 0"
| "chan_len s (Chan c) = len s c"

text \<open>\<open>while c.len() > 0: c.recv()\<close>, the drain loop of both \<open>_stop\<close> methods.\<close>

function drain :: "'a world \<Rightarrow> chanref \<Rightarrow> (stop + unit) \<times> 'a world" where
  "drain s c =
     (if chan_len s c > 0 then
        (case recv s c of
           (Inl e, s1) \<Rightarrow> (Inl e, s1)
         | (Inr _, s1) \<Rightarrow> drain s1 c)
      else (Inr (), s))"
  by pat_completeness auto
termination
proof (relation "measure (\<lambda>(s, c). case c of pynilchan \<Rightarrow> 0 | Chan k \<Rightarrow> backlog s k)")
  show "wf (measure (\<lambda>(s, c). case c of pynilchan \<Rightarrow> 0 | Chan k \<Rightarrow> backlog s k))"
    by simp
next
  fix s :: "'a world" and c x1 s1 r
  assume pos: "0 < chan_len s c" and eq: "(x1, s1) = recv s c" and r: "x1 = Inr r"
  show "((s1, c), (s, c)) \<in> measure (\<lambda>(s, c). case c of pynilchan \<Rightarrow> 0 | Chan k \<Rightarrow> backlog s k)"
  proof (cases c)
    case pynilchan
    with pos show ?thesis by simp
  next
    case (Chan k)
    with pos have "dataq (chans s k) \<noteq> []" by (simp add: len_def)
    moreover from eq r Chan have "recv s (Chan k) = (Inr r, s1)" by simp
    ultimately show ?thesis using Chan recv_backlog by fastforce
  qed
qed

declare drain.simps [simp del]

text \<open>
  \<open>PyTimer\<close>: \<open>tm_f\<close> tells whether a function was given (\<open>_f is not None\<close>),
  \<open>tm_dt = PInf\<close> is "stopped", \<open>tm_ver\<close> is the C \<open>int\<close> that counts the resets and
  wraps around.
\<close>

record pytimer =
  tm_c :: chanref
  tm_f :: bool
  tm_mu :: bool
  tm_dt :: double
  tm_ver :: "32 word"

text \<open>
  The state the timer works in: the timer, the heap of its channel, the \<open>__fire\<close>
  goroutines that \<open>pygo\<close> has started (each with its \<open>dt\<close> and \<open>ver\<close>), and how often
  \<open>_f\<close> was called. The handshake on \<open>nogilready\<close> only makes the caller wait until the
  goroutine runs; it leaves no trace in the state.
\<close>

record tworld =
  timer :: pytimer
  heap :: "double world"
  goroutines :: "(double \<times> 32 word) list"
  fcalls :: nat

definition Timer_stop :: "tworld \<Rightarrow> (stop + bool) \<times> tworld" where
  "Timer_stop s =
     (if tm_mu (timer s) then (Inl BlocksForever, s)
      else
        (let t1 = (timer s)\<lparr>tm_mu := True\<rparr>;
             canceled = (tm_dt t1 \<noteq> PInf);
             t2 = (if tm_dt t1 = PInf then t1 else t1\<lparr>tm_dt := PInf, tm_ver := tm_ver t1 + 1\<rparr>)
         in case drain (heap s) (tm_c t2) of
              (Inl e, h) \<Rightarrow> (Inl e, s\<lparr>timer := t2, heap := h\<rparr>)
            | (Inr _, h) \<Rightarrow> (Inr canceled, s\<lparr>timer := t2\<lparr>tm_mu := False\<rparr>, heap := h\<rparr>)))"

definition Timer_reset :: "tworld \<Rightarrow> double \<Rightarrow> (stop + unit) \<times> tworld" where
  "Timer_reset s dt =
     (if tm_mu (timer s) then (Inl BlocksForever, s)
      else if tm_dt (timer s) \<noteq> PInf then
        (Inl (Panic ''Timer.reset: the timer is armed; must be stopped or expired''), s)
      else
        (Inr (),
         s\<lparr>timer := (timer s)\<lparr>tm_dt := dt, tm_ver := tm_ver (timer s) + 1\<rparr>,
           goroutines := goroutines s @ [(dt, tm_ver (timer s) + 1)]\<rparr>))"

text \<open>
  \<open>___fire(dt, ver)\<close> once \<open>sleep(dt)\<close> is over, \<open>tnow\<close> being what \<open>now()\<close> returns. A
  send that parks keeps \<open>_mu\<close>; \<open>Timer_fire_wait\<close> is the rest of the goroutine then.
\<close>

definition Timer_fire :: "tworld \<Rightarrow> double \<Rightarrow> 32 word \<Rightarrow> double \<Rightarrow> (stop + unit) \<times> tworld" where
  "Timer_fire s dt ver tnow =
     (if tm_mu (timer s) then (Inl BlocksForever, s)
      else if tm_ver (timer s) \<noteq> ver then (Inr (), s)
      else if \<not> tm_f (timer s) then
        (case send (heap s) (tm_c (timer s)) tnow of
           (Inl e, h) \<Rightarrow> (Inl e, s\<lparr>timer := (timer s)\<lparr>tm_dt := PInf, tm_mu := True\<rparr>, heap := h\<rparr>)
         | (Inr _, h) \<Rightarrow> (Inr (), s\<lparr>timer := (timer s)\<lparr>tm_dt := PInf\<rparr>, heap := h\<rparr>))
      else (Inr (), s\<lparr>timer := (timer s)\<lparr>tm_dt := PInf\<rparr>, fcalls := Suc (fcalls s)\<rparr>))"

definition Timer_fire_wait :: "tworld \<Rightarrow> gid \<Rightarrow> wid \<Rightarrow> (stop + unit) \<times> tworld" where
  "Timer_fire_wait s g me =
     (case send_wait (heap s) g me of
        (Inl e, h) \<Rightarrow> (Inl e, s\<lparr>heap := h\<rparr>)
      | (Inr _, h) \<Rightarrow> (Inr (), s\<lparr>timer := (timer s)\<lparr>tm_mu := False\<rparr>, heap := h\<rparr>))"

text \<open>\<open>PyTimer.__init__(dt, f)\<close>; \<open>has_f\<close> is \<open>f is not None\<close>.\<close>

definition PyTimer_init :: "double world \<Rightarrow> double \<Rightarrow> bool \<Rightarrow> (stop + unit) \<times> tworld" where
  "PyTimer_init h dt has_f =
     (case (if has_f then (pynilchan, h) else new_pychan h 1) of (ch, h1) \<Rightarrow>
        Timer_reset
          \<lparr>timer = \<lparr>tm_c = ch, tm_f = has_f, tm_mu = False, tm_dt = PInf, tm_ver = 0\<rparr>,
           heap = h1, goroutines = [], fcalls = 0\<rparr>
          dt)"

text \<open>
  \<open>PyTicker.__init__(dt)\<close> and \<open>pytick(dt)\<close>. The \<open>__tick\<close> goroutine that the
  constructor starts sleeps first; it is not followed here.
\<close>

record pyticker =
  tk_c :: chanref
  tk_dt :: double
  tk_mu :: bool
  tk_stop :: bool

definition PyTicker_init :: "double world \<Rightarrow> double \<Rightarrow> (stop + pyticker) \<times> double world" where
  "PyTicker_init h dt =
     (if le_zero dt then (Inl (Panic ''ticker: dt <= 0''), h)
      else
        (case new_pychan h 1 of (ch, h1) \<Rightarrow>
           (Inr \<lparr>tk_c = ch, tk_dt = dt, tk_mu = False, tk_stop = False\<rparr>, h1)))"

definition pytick :: "double world \<Rightarrow> double \<Rightarrow> (stop + chanref) \<times> double world" where
  "pytick h dt =
     (if le_zero dt then (Inr pynilchan, h)
      else
        (case PyTicker_init h dt of
           (Inl e, h1) \<Rightarrow> (Inl e, h1)
         | (Inr tk, h1) \<Rightarrow> (Inr (tk_c tk), h1)))"

text \<open>
  A timer channel is quiet when nobody else works on it: its lock is free and no sender is
  parked on it. (The nil channel of a timer with a function is always quiet.)
\<close>

definition quiet :: "'a world \<Rightarrow> chanref \<Rightarrow> bool" where
  "quiet h c = (case c of pynilchan \<Rightarrow> True
                | Chan k \<Rightarrow> \<not> ch_mu (chans h k) \<and> sendq (chans h k) = [])"

text \<open>The timer that \<open>PyTimer(1.0)\<close> makes in the blank world.\<close>

definition armed_timer :: tworld where
  "armed_timer = snd (PyTimer_init world0 (Fin 1) False)"

subsection \<open>Cases that are not ready\<close>

text \<open>
  A queued waiter is stale when its group already has a winner (and the lock of the
  group is free): \<open>_dequeWaiter\<close> drops it and goes on.
\<close>

definition stale :: "'a world \<Rightarrow> wid \<Rightarrow> bool" where
  "stale s w = (\<not> wg_mu (groups s (group (waiters s w)))
                \<and> which (groups s (group (waiters s w))) \<noteq> None)"

text \<open>
  A send or receive case is not ready, read off the state of its channel as \<open>_trysend\<close>
  and \<open>_tryrecv\<close> find it under the lock. The nil channel is never ready. Otherwise the
  lock of the channel is free and the channel is open, and
  \<^item> for a send on a synchronous channel, every receiver queued in \<open>recvq\<close> is stale
    (\<open>_dequeWaiter\<close> returns \<open>None\<close>); for a send on a buffered channel, the buffer is full;
  \<^item> for a receive, the buffer is empty and every sender queued in \<open>sendq\<close> is stale.

  A closed channel is ready for both: the send panics, the receive returns \<open>(None, False)\<close>.
  The four malformed cases are not send or receive cases; they are never \<open>idle\<close>.
\<close>

fun idle :: "'a world \<Rightarrow> 'a selcase \<Rightarrow> bool" where
  "idle s (CaseSend pynilchan tx) = True"
| "idle s (CaseSend (Chan c) tx) =
     (\<not> ch_mu (chans s c) \<and> \<not> closed (chans s c)
      \<and> (if cap (chans s c) = 0 then (\<forall>w\<in>set (recvq (chans s c)). stale s w)
         else cap (chans s c) \<le> length (dataq (chans s c))))"
| "idle s (CaseRecv pynilchan commaok) = True"
| "idle s (CaseRecv (Chan c) commaok) =
     (\<not> ch_mu (chans s c) \<and> dataq (chans s c) = [] \<and> \<not> closed (chans s c)
      \<and> (\<forall>w\<in>set (sendq (chans s c)). stale s w))"
| "idle s _ = False"



text \<open>
  Two worlds with one channel: a synchronous channel nobody works on, and a channel of
  capacity 1 that holds the value 7.
\<close>

definition sync_world :: "nat world" where
  "sync_world = snd (new_pychan world0 0)"

definition full_world :: "nat world" where
  "full_world = chan_upd 0 (\<lambda>ch. ch\<lparr>dataq := [7]\<rparr>) (snd (new_pychan world0 1))"

subsection \<open>Parked waiters\<close>

text \<open>The group of a waiter.\<close>

definition grp :: "'a world \<Rightarrow> wid \<Rightarrow> gid" where
  "grp s w = group (waiters s w)"

text \<open>
  A waiter is parked while its group has no winner: the task behind it is still in
  \<open>g.wait()\<close>. It is alone on a channel when no other waiter queued there belongs to
  its group, as for every waiter that \<open>send\<close> and \<open>recv_\<close> park (pyselect may queue
  several waiters of one group). It is woken when it is the winner of its group and
  the semaphore of the group is released.
\<close>

definition parked :: "'a world \<Rightarrow> wid \<Rightarrow> bool" where
  "parked s w = (which (groups s (grp s w)) = None)"

definition alone :: "'a world \<Rightarrow> cid \<Rightarrow> wid \<Rightarrow> bool" where
  "alone s c w =
     (\<forall>w'\<in>set (recvq (chans s c)) \<union> set (sendq (chans s c)). grp s w' = grp s w \<longrightarrow> w' = w)"

definition woken :: "'a world \<Rightarrow> wid \<Rightarrow> bool" where
  "woken s w = (which (groups s (grp s w)) = Some (Waiter w) \<and> \<not> sema (groups s (grp s w)))"

definition unlocked :: "'a world \<Rightarrow> cid \<Rightarrow> bool" where
  "unlocked s c =
     (\<not> ch_mu (chans s c)
      \<and> (\<forall>w\<in>set (recvq (chans s c)) \<union> set (sendq (chans s c)). \<not> wg_mu (groups s (grp s w))))"

text \<open>
  Nothing is allocated twice: every queued waiter and its group lie below the next free
  addresses.
\<close>

definition alloc_ok :: "'a world \<Rightarrow> bool" where
  "alloc_ok s =
     (\<forall>c. \<forall>w\<in>set (recvq (chans s c)) \<union> set (sendq (chans s c)). w < nextw s \<and> grp s w < nextg s)"

text \<open>The synchronous channel after a \<open>recv_\<close>, and after a \<open>send(5)\<close>, parked on it.\<close>

definition parked_recv_world :: "nat world" where
  "parked_recv_world = snd (recv_ok sync_world (Chan 0))"

definition parked_send_world :: "nat world" where
  "parked_send_world = snd (send sync_world (Chan 0) 5)"

subsection \<open>The channel invariant\<close>

text \<open>
  What holds of a channel whenever its lock is free: one of the wait queues is empty,
  the buffer fits the capacity, a synchronous channel buffers nothing, a closed channel
  has no waiters; and, to keep these through every operation, receivers wait only at an
  empty buffer and senders only at a full one.
\<close>

definition chan_inv :: "'a pychan \<Rightarrow> bool" where
  "chan_inv ch =
     ((sendq ch = [] \<or> recvq ch = [])
      \<and> length (dataq ch) \<le> cap ch
      \<and> (cap ch = 0 \<longrightarrow> dataq ch = [])
      \<and> (closed ch \<longrightarrow> recvq ch = [] \<and> sendq ch = [])
      \<and> (dataq ch \<noteq> [] \<longrightarrow> recvq ch = [])
      \<and> (length (dataq ch) < cap ch \<longrightarrow> sendq ch = []))"

definition world_inv :: "'a world \<Rightarrow> bool" where
  "world_inv s = (\<forall>c. \<not> ch_mu (chans s c) \<longrightarrow> chan_inv (chans s c))"

text \<open>
  The operations on channels as steps of the world: each is one of the calls above, or
  the rest of a call that was suspended in \<open>g.wait()\<close>. Any interleaving of tasks is a
  list of such steps.
\<close>

datatype 'a op =
    OpNew nat
  | OpSend chanref 'a
  | OpSendWait gid wid
  | OpRecv chanref
  | OpRecvWait gid wid
  | OpClose chanref
  | OpSelect "(nat \<times> 'a selcase) list \<Rightarrow> (nat \<times> 'a selcase) list" "'a selcase list"
  | OpSelectWait gid bool

fun step :: "'a world \<Rightarrow> 'a op \<Rightarrow> 'a world" where
  "step s (OpNew sz) = snd (new_pychan s sz)"
| "step s (OpSend ch x) = snd (send s ch x)"
| "step s (OpSendWait g me) = snd (send_wait s g me)"
| "step s (OpRecv ch) = snd (recv_ok s ch)"
| "step s (OpRecvWait g me) = snd (recv_wait s g me)"
| "step s (OpClose ch) = snd (close s ch)"
| "step s (OpSelect shuffle casev) = snd (pyselect s shuffle casev)"
| "step s (OpSelectWait g held) = snd (pyselect_wait s g held)"

subsection \<open>A sender and a receiver on one channel\<close>

text \<open>
  Two tasks share one channel \<open>c\<close>. The sender runs \<open>for v in vs: c.send(v)\<close> and then
  \<open>c.close()\<close>; the receiver calls \<open>c.recv_()\<close> again and again and notes every pair it
  gets. \<open>todo\<close> holds the values still to send, \<open>sender_done\<close> tells that close has
  returned, \<open>blocked\<close> holds the group and the waiter of a \<open>recv_\<close> that is parked in
  \<open>g.wait()\<close>, \<open>seen\<close> the pairs noted so far, in order. \<open>failed\<close> is set when a call
  raises or when the sender does not return from a call.
\<close>

record 'a fifo =
  fw :: "'a world"
  todo :: "'a list"
  sender_done :: bool
  blocked :: "(gid \<times> wid) option"
  seen :: "('a option \<times> bool) list"
  failed :: bool

text \<open>One step of the sender: its next call, run until it returns.\<close>

definition sender_step :: "cid \<Rightarrow> 'a fifo \<Rightarrow> 'a fifo" where
  "sender_step c st =
     (case todo st of
        v # rest \<Rightarrow>
          (case send (fw st) (Chan c) v of
             (Inr _, w) \<Rightarrow> st\<lparr>fw := w, todo := rest\<rparr>
           | (Inl _, w) \<Rightarrow> st\<lparr>fw := w, failed := True\<rparr>)
      | [] \<Rightarrow>
          if sender_done st then st
          else
            (case close (fw st) (Chan c) of
               (Inr _, w) \<Rightarrow> st\<lparr>fw := w, sender_done := True\<rparr>
             | (Inl _, w) \<Rightarrow> st\<lparr>fw := w, failed := True\<rparr>))"

text \<open>
  One step of the receiver: a new \<open>recv_\<close>, or the resumption of the parked one, which
  stays parked while nobody has released its semaphore.
\<close>

definition receiver_step :: "cid \<Rightarrow> 'a fifo \<Rightarrow> 'a fifo" where
  "receiver_step c st =
     (case blocked st of
        None \<Rightarrow>
          (case recv_ok (fw st) (Chan c) of
             (Inr rx, w) \<Rightarrow> st\<lparr>fw := w, seen := seen st @ [rx]\<rparr>
           | (Inl (Waits g me), w) \<Rightarrow> st\<lparr>fw := w, blocked := Some (g, me)\<rparr>
           | (Inl _, w) \<Rightarrow> st\<lparr>fw := w, failed := True\<rparr>)
      | Some (g, me) \<Rightarrow>
          (case recv_wait (fw st) g me of
             (Inr rx, w) \<Rightarrow> st\<lparr>fw := w, blocked := None, seen := seen st @ [rx]\<rparr>
           | (Inl (Waits _ _), w) \<Rightarrow> st\<lparr>fw := w\<rparr>
           | (Inl _, w) \<Rightarrow> st\<lparr>fw := w, failed := True\<rparr>))"

text \<open>
  A schedule is a list of booleans: \<open>True\<close> lets the sender make a step, \<open>False\<close> the
  receiver. Nothing runs after a failure. The run starts with a fresh channel of
  capacity \<open>C\<close>, which gets the address 0.
\<close>

definition fifo_step :: "cid \<Rightarrow> 'a fifo \<Rightarrow> bool \<Rightarrow> 'a fifo" where
  "fifo_step c st sender =
     (if failed st then st else if sender then sender_step c st else receiver_step c st)"

definition fifo_init :: "nat \<Rightarrow> 'a list \<Rightarrow> 'a fifo" where
  "fifo_init C vs =
     \<lparr>fw = snd (new_pychan world0 C), todo = vs, sender_done = False, blocked = None,
      seen = [], failed = False\<rparr>"

definition fifo_run :: "nat \<Rightarrow> 'a list \<Rightarrow> bool list \<Rightarrow> 'a fifo" where
  "fifo_run C vs sched = foldl (fifo_step 0) (fifo_init C vs) sched"

definition sender_steps :: "bool list \<Rightarrow> nat" where
  "sender_steps sched = length (filter (\<lambda>b. b) sched)"

definition receiver_steps :: "bool list \<Rightarrow> nat" where
  "receiver_steps sched = length (filter (\<lambda>b. \<not> b) sched)"

text \<open>
  The first \<open>m\<close> pairs a receiver is to get when \<open>vs\<close> is sent and the channel is then
  closed: \<open>(v, True)\<close> for each value in order, then \<open>(None, False)\<close> for ever.
\<close>

definition expected :: "'a list \<Rightarrow> nat \<Rightarrow> ('a option \<times> bool) list" where
  "expected vs m = map (\<lambda>v. (Some v, True)) (take m vs) @ replicate (m - length vs) (None, False)"

text \<open>
  What holds between the steps of such a run. With \<open>k\<close> values sent and \<open>m\<close> pairs
  noted, the buffer holds the values in between, in order; a parked receiver is either
  still queued on the empty open channel, or was handed the next value or the news of
  the close and is about to return it.
\<close>

definition fifo_inv :: "nat \<Rightarrow> 'a list \<Rightarrow> cid \<Rightarrow> 'a fifo \<Rightarrow> bool" where
  "fifo_inv C vs c st =
     (let w = fw st; ch = chans w c; n = length vs; k = n - length (todo st);
          m = length (seen st); r = min m n
      in \<not> failed st \<and> todo st = drop k vs \<and> seen st = expected vs m \<and> r \<le> k
         \<and> (n < m \<longrightarrow> sender_done st) \<and> (sender_done st \<longrightarrow> todo st = [])
         \<and> cap ch = C \<and> \<not> ch_mu ch \<and> sendq ch = [] \<and> closed ch = sender_done st
         \<and> (case blocked st of
               None \<Rightarrow> recvq ch = [] \<and> dataq ch = drop r (take k vs)
             | Some (g, me) \<Rightarrow>
                 m \<le> n \<and> group (waiters w me) = g \<and> \<not> wg_mu (groups w g)
                 \<and> (recvq ch = [me] \<and> dataq ch = [] \<and> r = k \<and> \<not> sender_done st
                      \<and> which (groups w g) = None \<and> sema (groups w g)
                    \<or> recvq ch = [] \<and> which (groups w g) = Some (Waiter me) \<and> \<not> sema (groups w g)
                      \<and> (r < k \<and> rx_ok (waiters w me) = Some (Some (vs ! r), True)
                             \<and> dataq ch = drop (Suc r) (take k vs)
                         \<or> r = n \<and> sender_done st \<and> rx_ok (waiters w me) = Some (None, False)
                             \<and> dataq ch = []))))"

text \<open>How far the sender is: the number of its calls that have returned.\<close>

definition progress :: "'a list \<Rightarrow> 'a fifo \<Rightarrow> nat" where
  "progress vs st = length vs - length (todo st) + (if sender_done st then 1 else 0)"

section \<open>The claims\<close>

text \<open>
  C2. On a channel that is closed and whose buffer is empty (the lock being free),
  \<open>_tryrecv\<close> gives \<open>((None, False), True)\<close>: the try succeeded, no value was sent.
  \<open>recv_\<close> then returns \<open>(None, False)\<close> as a value: it neither parks nor blocks nor
  raises, and the world is left as it was.
\<close>

theorem recv_closed_empty:
  assumes "closed (chans s c)" and "dataq (chans s c) = []" and "\<not> ch_mu (chans s c)"
  shows "fst (tryrecv (acquire c s) c) = Inr ((None, False), True)
       \<and> recv_ok s (Chan c) = (Inr (None, False), s)"
proof -
  have t: "tryrecv (acquire c s) c = (Inr ((None, False), True), s)"
    using assms by (simp add: tryrecv_def release_acquire)
  show ?thesis using assms(3) by (simp add: t recv_ok_def)
qed

theorem recv_closed_empty_witness:
  "recv_ok (chan_upd 0 (\<lambda>ch. ch\<lparr>closed := True\<rparr>) (world0 :: nat world)) (Chan 0)
     = (Inr (None, False), chan_upd 0 (\<lambda>ch. ch\<lparr>closed := True\<rparr>) world0)"
  using recv_closed_empty [of "chan_upd 0 (\<lambda>ch. ch\<lparr>closed := True\<rparr>) (world0 :: nat world)" 0]
  by (simp add: world0_def pychan_init_def)

subsection \<open>Timers\<close>

lemma drain_empty: "drain s c = (Inr u, s1) \<Longrightarrow> chan_len s1 c = 0"
proof (induction s c rule: drain.induct)
  case (1 s c)
  show ?case
  proof (cases "chan_len s c > 0")
    case True
    with 1 show ?thesis
      by (auto simp: drain.simps [of s c] split: prod.splits sum.splits)
  next
    case False
    with 1 show ?thesis by (simp add: drain.simps [of s c])
  qed
qed

lemma chan_upd_id: "f (chans s c) = chans s c \<Longrightarrow> chan_upd c f s = s"
  by (simp add: chan_upd_def)

lemma chan_upd_chan_upd [simp]: "chan_upd c f (chan_upd c g s) = chan_upd c (f \<circ> g) s"
  by (simp add: chan_upd_def)

lemma recv_plain:
  assumes "\<not> ch_mu (chans s k)" and "sendq (chans s k) = []" and "dataq (chans s k) = rx # rest"
  shows "recv s (Chan k) = (Inr (Some rx), chan_upd k (\<lambda>ch. ch\<lparr>dataq := rest\<rparr>) s)"
proof -
  have "tryrecv (acquire k s) k
        = (Inr ((Some rx, True), True), chan_upd k (\<lambda>ch. ch\<lparr>dataq := rest\<rparr>) s)"
    using assms
    by (simp add: tryrecv_def acquire_def release_def chan_upd_def fun_eq_iff)
  with assms(1) show ?thesis by (simp add: recv_def recv_ok_def)
qed

lemma drain_plain:
  "\<not> ch_mu (chans s k) \<Longrightarrow> sendq (chans s k) = [] \<Longrightarrow>
   drain s (Chan k) = (Inr (), chan_upd k (\<lambda>ch. ch\<lparr>dataq := []\<rparr>) s)"
proof (induction "dataq (chans s k)" arbitrary: s)
  case Nil
  then show ?case
    by (simp add: drain.simps [of s] len_def chan_upd_id)
next
  case (Cons rx rest)
  let ?s1 = "chan_upd k (\<lambda>ch. ch\<lparr>dataq := rest\<rparr>) s"
  have r: "recv s (Chan k) = (Inr (Some rx), ?s1)"
    using Cons.prems Cons.hyps(2) [symmetric] by (rule recv_plain)
  have "drain ?s1 (Chan k) = (Inr (), chan_upd k (\<lambda>ch. ch\<lparr>dataq := []\<rparr>) ?s1)"
    using Cons.prems by (intro Cons.hyps(1)) simp_all
  moreover have "chan_upd k (\<lambda>ch. ch\<lparr>dataq := []\<rparr>) ?s1 = chan_upd k (\<lambda>ch. ch\<lparr>dataq := []\<rparr>) s"
    by (simp add: comp_def)
  ultimately show ?case
    using Cons.hyps(2) [symmetric] r by (simp add: drain.simps [of s] len_def)
qed

lemma drain_nil: "drain s pynilchan = (Inr (), s)"
  by (simp add: drain.simps [of s])


lemma drain_quiet: "quiet h c \<Longrightarrow> \<exists>h'. drain h c = (Inr (), h')"
  by (cases c) (simp_all add: quiet_def drain_nil drain_plain)

lemma armed_timer_eq: "armed_timer =
   \<lparr>timer = \<lparr>tm_c = Chan 0, tm_f = False, tm_mu = False, tm_dt = Fin 1, tm_ver = 1\<rparr>,
    heap = snd (new_pychan world0 1), goroutines = [(Fin 1, 1)], fcalls = 0\<rparr>"
  by (simp add: armed_timer_def PyTimer_init_def Timer_reset_def new_pychan_def world0_def)

text \<open>
  C8. When \<open>Timer.stop\<close> returns, its result is true exactly when the timer was armed
  (\<open>_dt\<close> was not \<open>+inf\<close>) at the call. The timer is disarmed afterwards. If it
  was armed, the version is one more than before, and the pending \<open>__fire\<close> goroutine,
  which carries the old version, returns without any effect whenever it wakes up in that
  state. If it was not armed, the timer is as before. In every case the channel \<open>c\<close> is
  empty. And stop does return when the channel is quiet.
\<close>

theorem stop_iff_armed:
  assumes "\<not> tm_mu (timer s)"
  shows "(\<forall>b s'. Timer_stop s = (Inr b, s') \<longrightarrow>
            b = (tm_dt (timer s) \<noteq> PInf)
          \<and> tm_dt (timer s') = PInf
          \<and> (b \<longrightarrow> tm_ver (timer s') = tm_ver (timer s) + 1
                  \<and> (\<forall>dt tnow. Timer_fire s' dt (tm_ver (timer s)) tnow = (Inr (), s')))
          \<and> (\<not> b \<longrightarrow> timer s' = timer s)
          \<and> chan_len (heap s') (tm_c (timer s')) = 0)
       \<and> (quiet (heap s) (tm_c (timer s)) \<longrightarrow> (\<exists>b s'. Timer_stop s = (Inr b, s')))"
proof (intro conjI allI impI)
  fix b s'
  assume st: "Timer_stop s = (Inr b, s')"
  let ?c = "tm_c (timer s)"
  from st assms obtain h where d: "drain (heap s) ?c = (Inr (), h)"
    and b: "b = (tm_dt (timer s) \<noteq> PInf)"
    and s': "s' = s\<lparr>timer := (if tm_dt (timer s) = PInf then (timer s)\<lparr>tm_mu := True\<rparr>
                               else (timer s)\<lparr>tm_mu := True, tm_dt := PInf, tm_ver := tm_ver (timer s) + 1\<rparr>)
                             \<lparr>tm_mu := False\<rparr>, heap := h\<rparr>"
    by (auto simp: Timer_stop_def Let_def split: prod.splits sum.splits if_splits)
  have e: "chan_len h ?c = 0" using drain_empty [OF d] .
  show "b = (tm_dt (timer s) \<noteq> PInf)" by (rule b)
  show "tm_dt (timer s') = PInf" by (simp add: s')
  show "chan_len (heap s') (tm_c (timer s')) = 0" using e by (simp add: s')
  show "timer s' = timer s" if "\<not> b" using that b assms by (simp add: s')
  show "tm_ver (timer s') = tm_ver (timer s) + 1" if "b" using that b by (simp add: s')
  show "Timer_fire s' dt (tm_ver (timer s)) tnow = (Inr (), s')" if "b" for dt tnow
    using that b by (simp add: s' Timer_fire_def)
next
  assume "quiet (heap s) (tm_c (timer s))"
  then obtain h where "drain (heap s) (tm_c (timer s)) = (Inr (), h)"
    using drain_quiet by blast
  then show "\<exists>b s'. Timer_stop s = (Inr b, s')"
    using assms by (auto simp: Timer_stop_def Let_def)
qed

theorem stop_iff_armed_witness:
  "\<not> tm_mu (timer armed_timer)
   \<and> (\<exists>s'. Timer_stop armed_timer = (Inr True, s')
          \<and> tm_dt (timer s') = PInf \<and> tm_ver (timer s') = 2
          \<and> Timer_fire s' (Fin 1) 1 (Fin 5) = (Inr (), s')
          \<and> chan_len (heap s') (tm_c (timer s')) = 0)"
proof -
  have m: "\<not> tm_mu (timer armed_timer)" by (simp add: armed_timer_eq)
  have q: "quiet (heap armed_timer) (tm_c (timer armed_timer))"
    by (simp add: armed_timer_eq quiet_def new_pychan_def world0_def pychan_init_def)
  from stop_iff_armed [OF m] q obtain b s' where st: "Timer_stop armed_timer = (Inr b, s')"
    by blast
  from stop_iff_armed [OF m] st have
    "b = (tm_dt (timer armed_timer) \<noteq> PInf)" "tm_dt (timer s') = PInf"
    "b \<longrightarrow> tm_ver (timer s') = tm_ver (timer armed_timer) + 1
          \<and> (\<forall>dt tnow. Timer_fire s' dt (tm_ver (timer armed_timer)) tnow = (Inr (), s'))"
    "chan_len (heap s') (tm_c (timer s')) = 0"
    by blast+
  then show ?thesis using m st by (auto simp: armed_timer_eq)
qed

text \<open>
  C9. \<open>Timer.reset(dt)\<close> panics exactly when the timer is armed, with the message
  \<open>Timer.reset: the timer is armed; must be stopped or expired\<close>, and leaves the state
  alone then. On a stopped or expired timer it sets \<open>_dt\<close> to \<open>dt\<close>, increments
  the version and starts a \<open>__fire\<close> goroutine with that \<open>dt\<close> and the new version.
  A reset after a stop that returned always succeeds.
\<close>

theorem reset_iff_armed:
  assumes "\<not> tm_mu (timer s)"
  shows "((\<exists>m. fst (Timer_reset s dt) = Inl (Panic m)) \<longleftrightarrow> tm_dt (timer s) \<noteq> PInf)
       \<and> (tm_dt (timer s) \<noteq> PInf \<longrightarrow>
            Timer_reset s dt
              = (Inl (Panic ''Timer.reset: the timer is armed; must be stopped or expired''), s))
       \<and> (tm_dt (timer s) = PInf \<longrightarrow>
            Timer_reset s dt
              = (Inr (), s\<lparr>timer := (timer s)\<lparr>tm_dt := dt, tm_ver := tm_ver (timer s) + 1\<rparr>,
                           goroutines := goroutines s @ [(dt, tm_ver (timer s) + 1)]\<rparr>))
       \<and> (\<forall>b s'. Timer_stop s = (Inr b, s') \<longrightarrow> fst (Timer_reset s' dt) = Inr ())"
  using assms
  by (auto simp: Timer_reset_def Timer_stop_def Let_def split: prod.splits sum.splits if_splits)

theorem reset_iff_armed_witness:
  "\<not> tm_mu (timer armed_timer)
   \<and> Timer_reset armed_timer (Fin 2)
       = (Inl (Panic ''Timer.reset: the timer is armed; must be stopped or expired''), armed_timer)
   \<and> (\<exists>s'. Timer_stop armed_timer = (Inr True, s') \<and> fst (Timer_reset s' (Fin 2)) = Inr ())"
proof -
  have m: "\<not> tm_mu (timer armed_timer)" by (simp add: armed_timer_eq)
  have a: "tm_dt (timer armed_timer) \<noteq> PInf" by (simp add: armed_timer_eq)
  have q: "quiet (heap armed_timer) (tm_c (timer armed_timer))"
    by (simp add: armed_timer_eq quiet_def new_pychan_def world0_def pychan_init_def)
  obtain h where d: "drain (heap armed_timer) (tm_c (timer armed_timer)) = (Inr (), h)"
    using drain_quiet [OF q] by blast
  have st: "\<exists>s'. Timer_stop armed_timer = (Inr True, s')"
    using m a d by (simp add: Timer_stop_def Let_def)
  show ?thesis using reset_iff_armed [OF m, of "Fin 2"] a m st by auto
qed

text \<open>
  C10. For every \<open>dt <= 0\<close>, \<open>tick(dt)\<close> returns the nil channel, on which
  \<open>recv_\<close> and \<open>recv\<close> block forever, while \<open>PyTicker(dt)\<close> panics with
  \<open>ticker: dt <= 0\<close>. \<open>tick\<close> panics for no \<open>dt\<close> at all, and the constructor
  panics for no other \<open>dt\<close>.
\<close>

theorem tick_nonpositive:
  "(le_zero dt \<longrightarrow>
      pytick h dt = (Inr pynilchan, h)
    \<and> recv_ok h pynilchan = (Inl BlocksForever, h)
    \<and> recv h pynilchan = (Inl BlocksForever, h)
    \<and> PyTicker_init h dt = (Inl (Panic ''ticker: dt <= 0''), h))
   \<and> (\<forall>m. fst (pytick h dt) \<noteq> Inl (Panic m))
   \<and> ((\<exists>m. fst (PyTicker_init h dt) = Inl (Panic m)) \<longleftrightarrow> le_zero dt)"
  by (auto simp: pytick_def PyTicker_init_def recv_def recv_ok_def blockforever_def new_pychan_def)

theorem tick_nonpositive_witness:
  "le_zero (Fin (-1))
   \<and> pytick (world0 :: double world) (Fin (-1)) = (Inr pynilchan, world0)
   \<and> PyTicker_init (world0 :: double world) (Fin (-1)) = (Inl (Panic ''ticker: dt <= 0''), world0)
   \<and> fst (pytick (world0 :: double world) (Fin 1)) = Inr (Chan 0)"
  using tick_nonpositive [of "Fin (-1)" "world0 :: double world"]
  by (simp add: pytick_def PyTicker_init_def new_pychan_def world0_def)

subsection \<open>pyselect\<close>


lemma try_to_win_False:
  "try_to_win s g w = (Inr False, s1) \<Longrightarrow>
     s1 = s \<and> \<not> wg_mu (groups s g) \<and> which (groups s g) \<noteq> None"
  by (simp add: try_to_win_def split: if_splits)

lemma dequeWaiter_None_stale:
  "dequeWaiter s q = (Inr None, q', s') \<Longrightarrow> (\<forall>w\<in>set q. stale s w) \<and> s' = s"
proof (induction q)
  case Nil
  then show ?case by simp
next
  case (Cons w queue)
  obtain r s1 where t: "try_to_win s (group (waiters s w)) w = (r, s1)"
    by (cases "try_to_win s (group (waiters s w)) w") auto
  from Cons.prems t have r: "r = Inr False" and d: "dequeWaiter s1 queue = (Inr None, q', s')"
    by (auto split: sum.splits bool.splits)
  from t r have f: "s1 = s" "stale s w"
    using try_to_win_False [of s "group (waiters s w)" w s1] by (simp_all add: stale_def)
  from Cons.IH d f(1) have "(\<forall>w\<in>set queue. stale s w) \<and> s' = s" by simp
  with f(2) show ?case by simp
qed



lemma poll_pending_idle:
  "fst (poll s [(n, cs)] [] [] None) = Inr (Pending recvv sendv nd) \<Longrightarrow> cs \<noteq> pydefault
     \<Longrightarrow> idle s cs"
proof (cases cs)
  case (CaseSend ch tx)
  assume nr: "fst (poll s [(n, cs)] [] [] None) = Inr (Pending recvv sendv nd)"
  show ?thesis
  proof (cases ch)
    case pynilchan
    with CaseSend show ?thesis by simp
  next
    case (Chan c)
    obtain r s1 where t: "trysend (acquire c s) c tx = (r, s1)"
      by (cases "trysend (acquire c s) c tx") auto
    from nr CaseSend Chan t have m: "\<not> ch_mu (chans s c)" and r: "r = Inr False"
      by (auto split: if_splits sum.splits bool.splits)
    have nc: "\<not> closed (chans s c)"
      using t r by (auto simp: trysend_def split: if_splits)
    show ?thesis
    proof (cases "cap (chans s c) = 0")
      case True
      obtain a q s2 where d: "dequeWaiter (acquire c s) (recvq (chans s c)) = (a, q, s2)"
        by (cases "dequeWaiter (acquire c s) (recvq (chans s c))") auto
      with t r True nc have "a = Inr None"
        by (auto simp: trysend_def Let_def split: sum.splits option.splits prod.splits)
      with d have "\<forall>w\<in>set (recvq (chans s c)). stale (acquire c s) w"
        using dequeWaiter_None_stale by blast
      then show ?thesis using CaseSend Chan m nc True by (simp add: stale_def)
    next
      case False
      obtain a q s2 where d:
        "dequeWaiter (chan_upd c (\<lambda>ch. ch\<lparr>dataq := dataq ch @ [tx]\<rparr>) (acquire c s)) (recvq (chans s c))
           = (a, q, s2)"
        using prod_cases3 by blast
      have "cap (chans s c) \<le> length (dataq (chans s c))"
      proof (rule ccontr)
        assume "\<not> ?thesis"
        with t r False nc d show False
          by (auto simp: trysend_def Let_def split: sum.splits option.splits prod.splits list.splits)
      qed
      then show ?thesis using CaseSend Chan m nc False by simp
    qed
  qed
next
  case (CaseRecv ch commaok)
  assume nr: "fst (poll s [(n, cs)] [] [] None) = Inr (Pending recvv sendv nd)"
  show ?thesis
  proof (cases ch)
    case pynilchan
    with CaseRecv show ?thesis by simp
  next
    case (Chan c)
    obtain r s1 where t: "tryrecv (acquire c s) c = (r, s1)"
      by (cases "tryrecv (acquire c s) c") auto
    from nr CaseRecv Chan t have m: "\<not> ch_mu (chans s c)" and r: "\<exists>rxok. r = Inr (rxok, False)"
      by (auto split: if_splits sum.splits bool.splits prod.splits)
    then obtain rxok where r': "r = Inr (rxok, False)" by blast
    have e: "dataq (chans s c) = []"
    proof (cases "dataq (chans s c)")
      case Nil
      then show ?thesis .
    next
      case (Cons rx rest)
      with t r' show ?thesis
        by (auto simp: tryrecv_def Let_def split: sum.splits option.splits prod.splits wclass.splits)
    qed
    have nc: "\<not> closed (chans s c)"
      using t r' e by (auto simp: tryrecv_def split: if_splits)
    obtain a q s2 where d: "dequeWaiter (acquire c s) (sendq (chans s c)) = (a, q, s2)"
      using prod_cases3 by blast
    with t r' e nc have "a = Inr None"
      by (auto simp: tryrecv_def Let_def split: sum.splits option.splits prod.splits wclass.splits)
    with d have "\<forall>w\<in>set (sendq (chans s c)). stale (acquire c s) w"
      using dequeWaiter_None_stale by blast
    then show ?thesis using CaseRecv Chan m nc e by (simp add: stale_def)
  qed
next
  case pydefault
  assume "cs \<noteq> pydefault"
  with pydefault show ?thesis by simp
next
  case SendNonChan
  assume "fst (poll s [(n, cs)] [] [] None) = Inr (Pending recvv sendv nd)"
  with SendNonChan show ?thesis by simp
next
  case SendExpected
  assume "fst (poll s [(n, cs)] [] [] None) = Inr (Pending recvv sendv nd)"
  with SendExpected show ?thesis by simp
next
  case RecvNonChan
  assume "fst (poll s [(n, cs)] [] [] None) = Inr (Pending recvv sendv nd)"
  with RecvNonChan show ?thesis by simp
next
  case RecvExpected
  assume "fst (poll s [(n, cs)] [] [] None) = Inr (Pending recvv sendv nd)"
  with RecvExpected show ?thesis by simp
qed













text \<open>
  C7. The check for a second default sits in the polling loop, which returns as soon as
  a case is ready. With a receive on a channel that holds 7 and two defaults, pyselect
  returns \<open>(0, 7)\<close> when the shuffle leaves the receive first, and panics with
  \<open>pyselect: multiple default\<close> when the shuffle puts the two defaults first.
\<close>

theorem select_two_defaults:
  "pyselect full_world (\<lambda>ncasev. ncasev) [CaseRecv (Chan 0) False, pydefault, pydefault]
     = (Inr (0, PyVal (Some 7)), snd (new_pychan world0 1))
   \<and> fst (pyselect full_world rev [CaseRecv (Chan 0) False, pydefault, pydefault])
     = Inl (Panic ''pyselect: multiple default'')"
  by (simp add: pyselect_def full_world_def new_pychan_def world0_def pychan_init_def
      tryrecv_def unpack_def chan_upd_def acquire_def release_def)

subsection \<open>close\<close>

lemma close_drain_Nil: "close_drain s [] acc = (Inr acc, [], s)"
  by (simp add: close_drain.simps [of s "[]"])

lemma close_drain_Cons:
  assumes "\<not> wg_mu (groups s (grp s w))"
  shows "close_drain s (w # q) acc =
         (if which (groups s (grp s w)) = None
          then close_drain (group_upd (grp s w) (\<lambda>gr. gr\<lparr>which := Some (Waiter w)\<rparr>) s) q (acc @ [w])
          else close_drain s q acc)"
proof (cases "which (groups s (grp s w)) = None")
  case True
  with assms show ?thesis
    by (simp add: close_drain.simps [of s "w # q"] try_to_win_def grp_def)
next
  case False
  with assms have "dequeWaiter s (w # q) = dequeWaiter s q"
    by (simp add: try_to_win_def grp_def)
  then have "close_drain s (w # q) acc = close_drain s q acc"
    by (simp add: close_drain.simps [of s "w # q"] close_drain.simps [of s q])
  with False show ?thesis by auto
qed

lemma close_drain_spec:
  assumes "\<forall>w\<in>set q. \<not> wg_mu (groups s (grp s w))"
  shows "\<exists>ws s'. close_drain s q acc = (Inr (acc @ ws), [], s')
          \<and> chans s' = chans s \<and> waiters s' = waiters s
          \<and> nextc s' = nextc s \<and> nextg s' = nextg s \<and> nextw s' = nextw s
          \<and> set ws \<subseteq> set q \<and> distinct (map (grp s) ws)
          \<and> (\<forall>w\<in>set ws. which (groups s (grp s w)) = None
                \<and> groups s' (grp s w) = (groups s (grp s w))\<lparr>which := Some (Waiter w)\<rparr>)
          \<and> (\<forall>g. g \<notin> grp s ` set ws \<longrightarrow> groups s' g = groups s g)
          \<and> (\<forall>w\<in>set q. which (groups s' (grp s w)) \<noteq> None)"
  using assms
proof (induction q arbitrary: s acc)
  case Nil
  show ?case by (simp add: close_drain_Nil)
next
  case (Cons w q)
  have free: "\<not> wg_mu (groups s (grp s w))" using Cons.prems by simp
  show ?case
  proof (cases "which (groups s (grp s w)) = None")
    case False
    from Cons.IH [of s acc] Cons.prems obtain ws s' where
      h: "close_drain s q acc = (Inr (acc @ ws), [], s')"
         "chans s' = chans s" "waiters s' = waiters s"
         "nextc s' = nextc s" "nextg s' = nextg s" "nextw s' = nextw s"
         "set ws \<subseteq> set q" "distinct (map (grp s) ws)"
         "\<forall>w\<in>set ws. which (groups s (grp s w)) = None
                \<and> groups s' (grp s w) = (groups s (grp s w))\<lparr>which := Some (Waiter w)\<rparr>"
         "\<forall>g. g \<notin> grp s ` set ws \<longrightarrow> groups s' g = groups s g"
         "\<forall>w\<in>set q. which (groups s' (grp s w)) \<noteq> None"
      by auto
    have "grp s w \<notin> grp s ` set ws" using h(9) False by auto
    then have "which (groups s' (grp s w)) \<noteq> None" using h(10) False by simp
    with h False free show ?thesis
      by (intro exI [of _ ws] exI [of _ s']) (auto simp: close_drain_Cons)
  next
    case True
    let ?s1 = "group_upd (grp s w) (\<lambda>gr. gr\<lparr>which := Some (Waiter w)\<rparr>) s"
    have g1: "grp ?s1 = grp s" by (simp add: grp_def fun_eq_iff)
    have "\<forall>w\<in>set q. \<not> wg_mu (groups ?s1 (grp ?s1 w))"
      using Cons.prems by (simp add: g1)
    from Cons.IH [OF this, of "acc @ [w]"] obtain ws s' where
      h: "close_drain ?s1 q (acc @ [w]) = (Inr ((acc @ [w]) @ ws), [], s')"
         "chans s' = chans ?s1" "waiters s' = waiters ?s1"
         "nextc s' = nextc ?s1" "nextg s' = nextg ?s1" "nextw s' = nextw ?s1"
         "set ws \<subseteq> set q" "distinct (map (grp ?s1) ws)"
         "\<forall>w\<in>set ws. which (groups ?s1 (grp ?s1 w)) = None
                \<and> groups s' (grp ?s1 w) = (groups ?s1 (grp ?s1 w))\<lparr>which := Some (Waiter w)\<rparr>"
         "\<forall>g. g \<notin> grp ?s1 ` set ws \<longrightarrow> groups s' g = groups ?s1 g"
         "\<forall>w\<in>set q. which (groups s' (grp ?s1 w)) \<noteq> None"
      by auto
    have notin: "grp s w \<notin> grp s ` set ws"
    proof
      assume "grp s w \<in> grp s ` set ws"
      then obtain w' where "w' \<in> set ws" "grp s w' = grp s w" by auto
      with h(9) show False by (auto simp: g1)
    qed
    have own: "groups s' (grp s w) = (groups s (grp s w))\<lparr>which := Some (Waiter w)\<rparr>"
      using h(10) notin by (simp add: g1)
    have others: "\<forall>w'\<in>set ws. which (groups s (grp s w')) = None
                \<and> groups s' (grp s w') = (groups s (grp s w'))\<lparr>which := Some (Waiter w')\<rparr>"
    proof
      fix w' assume w': "w' \<in> set ws"
      with notin have ne: "grp s w' \<noteq> grp s w" by (metis imageI)
      from h(9) w' have "which (groups ?s1 (grp s w')) = None"
        "groups s' (grp s w') = (groups ?s1 (grp s w'))\<lparr>which := Some (Waiter w')\<rparr>"
        by (simp_all add: g1)
      with ne show "which (groups s (grp s w')) = None
                \<and> groups s' (grp s w') = (groups s (grp s w'))\<lparr>which := Some (Waiter w')\<rparr>"
        by simp
    qed
    have rest: "\<forall>g. g \<notin> grp s ` set (w # ws) \<longrightarrow> groups s' g = groups s g"
      using h(10) by (simp add: g1)
    have dec: "\<forall>w'\<in>set (w # q). which (groups s' (grp s w')) \<noteq> None"
      using h(11) own by (simp add: g1)
    show ?thesis
    proof (intro exI [of _ "w # ws"] exI [of _ s'] conjI)
      show "close_drain s (w # q) acc = (Inr (acc @ w # ws), [], s')"
        using h(1) True free by (simp add: close_drain_Cons)
      show "distinct (map (grp s) (w # ws))" using h(8) notin by (simp add: g1)
      show "set (w # ws) \<subseteq> set (w # q)" using h(7) by auto
      show "\<forall>w\<in>set (w # ws). which (groups s (grp s w)) = None
                \<and> groups s' (grp s w) = (groups s (grp s w))\<lparr>which := Some (Waiter w)\<rparr>"
        using own others True by simp
    qed (use h rest dec in simp_all)
  qed
qed

lemma grp_cong: "waiters s' = waiters s \<Longrightarrow> grp s' = grp s"
  by (simp add: grp_def fun_eq_iff)

lemma recv_wakeup_decided:
  assumes "which (groups s (grp s w)) \<noteq> None"
  shows "recv_wakeup s w rx okv
         = (Inr (), group_upd (grp s w) (\<lambda>gr. gr\<lparr>sema := False\<rparr>)
                      (waiter_upd w (\<lambda>r. r\<lparr>rx_ok := Some (rx, okv)\<rparr>) s))"
  using assms by (simp add: recv_wakeup_def wg_wakeup_def grp_def Let_def)

lemma send_wakeup_decided:
  assumes "which (groups s (grp s w)) \<noteq> None"
  shows "send_wakeup s w okv
         = (Inr (), group_upd (grp s w) (\<lambda>gr. gr\<lparr>sema := False\<rparr>)
                      (waiter_upd w (\<lambda>r. r\<lparr>ok := Some okv\<rparr>) s))"
  using assms by (simp add: send_wakeup_def wg_wakeup_def grp_def Let_def)

lemma wakeup_recvv_spec:
  assumes "\<forall>w\<in>set ws. which (groups s (grp s w)) \<noteq> None"
  shows "\<exists>s'. wakeup_recvv s ws = (Inr (), s') \<and> chans s' = chans s
          \<and> nextc s' = nextc s \<and> nextg s' = nextg s \<and> nextw s' = nextw s
          \<and> (\<forall>g. groups s' g = (if g \<in> grp s ` set ws then (groups s g)\<lparr>sema := False\<rparr>
                                 else groups s g))
          \<and> (\<forall>w. waiters s' w = (if w \<in> set ws then (waiters s w)\<lparr>rx_ok := Some (None, False)\<rparr>
                                  else waiters s w))"
  using assms
proof (induction ws arbitrary: s)
  case Nil
  then show ?case by simp
next
  case (Cons w ws)
  let ?s1 = "group_upd (grp s w) (\<lambda>gr. gr\<lparr>sema := False\<rparr>)
               (waiter_upd w (\<lambda>r. r\<lparr>rx_ok := Some (None, False)\<rparr>) s)"
  have st: "recv_wakeup s w None False = (Inr (), ?s1)"
    using Cons.prems by (simp add: recv_wakeup_decided)
  have g1: "grp ?s1 = grp s" by (simp add: grp_def fun_eq_iff)
  have "\<forall>w\<in>set ws. which (groups ?s1 (grp ?s1 w)) \<noteq> None"
    using Cons.prems by (simp add: g1)
  from Cons.IH [OF this] obtain s' where
    h: "wakeup_recvv ?s1 ws = (Inr (), s')" "chans s' = chans ?s1"
       "nextc s' = nextc ?s1" "nextg s' = nextg ?s1" "nextw s' = nextw ?s1"
       "\<forall>g. groups s' g = (if g \<in> grp ?s1 ` set ws then (groups ?s1 g)\<lparr>sema := False\<rparr>
                                 else groups ?s1 g)"
       "\<forall>w. waiters s' w = (if w \<in> set ws then (waiters ?s1 w)\<lparr>rx_ok := Some (None, False)\<rparr>
                                  else waiters ?s1 w)"
    by blast
  show ?case
  proof (intro exI [of _ s'] conjI allI)
    show "wakeup_recvv s (w # ws) = (Inr (), s')" using st h(1) by simp
    show "groups s' g = (if g \<in> grp s ` set (w # ws) then (groups s g)\<lparr>sema := False\<rparr>
                                 else groups s g)" for g
      using h(6) by (simp add: g1)
    show "waiters s' w' = (if w' \<in> set (w # ws) then (waiters s w')\<lparr>rx_ok := Some (None, False)\<rparr>
                                  else waiters s w')" for w'
      using h(7) by simp
  qed (use h in simp_all)
qed

lemma wakeup_sendv_spec:
  assumes "\<forall>w\<in>set ws. which (groups s (grp s w)) \<noteq> None"
  shows "\<exists>s'. wakeup_sendv s ws = (Inr (), s') \<and> chans s' = chans s
          \<and> nextc s' = nextc s \<and> nextg s' = nextg s \<and> nextw s' = nextw s
          \<and> (\<forall>g. groups s' g = (if g \<in> grp s ` set ws then (groups s g)\<lparr>sema := False\<rparr>
                                 else groups s g))
          \<and> (\<forall>w. waiters s' w = (if w \<in> set ws then (waiters s w)\<lparr>ok := Some False\<rparr>
                                  else waiters s w))"
  using assms
proof (induction ws arbitrary: s)
  case Nil
  then show ?case by simp
next
  case (Cons w ws)
  let ?s1 = "group_upd (grp s w) (\<lambda>gr. gr\<lparr>sema := False\<rparr>)
               (waiter_upd w (\<lambda>r. r\<lparr>ok := Some False\<rparr>) s)"
  have st: "send_wakeup s w False = (Inr (), ?s1)"
    using Cons.prems by (simp add: send_wakeup_decided)
  have g1: "grp ?s1 = grp s" by (simp add: grp_def fun_eq_iff)
  have "\<forall>w\<in>set ws. which (groups ?s1 (grp ?s1 w)) \<noteq> None"
    using Cons.prems by (simp add: g1)
  from Cons.IH [OF this] obtain s' where
    h: "wakeup_sendv ?s1 ws = (Inr (), s')" "chans s' = chans ?s1"
       "nextc s' = nextc ?s1" "nextg s' = nextg ?s1" "nextw s' = nextw ?s1"
       "\<forall>g. groups s' g = (if g \<in> grp ?s1 ` set ws then (groups ?s1 g)\<lparr>sema := False\<rparr>
                                 else groups ?s1 g)"
       "\<forall>w. waiters s' w = (if w \<in> set ws then (waiters ?s1 w)\<lparr>ok := Some False\<rparr>
                                  else waiters ?s1 w)"
    by blast
  show ?case
  proof (intro exI [of _ s'] conjI allI)
    show "wakeup_sendv s (w # ws) = (Inr (), s')" using st h(1) by simp
    show "groups s' g = (if g \<in> grp s ` set (w # ws) then (groups s g)\<lparr>sema := False\<rparr>
                                 else groups s g)" for g
      using h(6) by (simp add: g1)
    show "waiters s' w' = (if w' \<in> set (w # ws) then (waiters s w')\<lparr>ok := Some False\<rparr>
                                  else waiters s w')" for w'
      using h(7) by simp
  qed (use h in simp_all)
qed

lemma close_effect:
  assumes m: "\<not> ch_mu (chans s c)" and opn: "\<not> closed (chans s c)"
    and free: "\<forall>w\<in>set (recvq (chans s c)) \<union> set (sendq (chans s c)). \<not> wg_mu (groups s (grp s w))"
  shows "\<exists>s' rws sws. close s (Chan c) = (Inr (), s')
          \<and> chans s' = (chans s)(c := (chans s c)\<lparr>closed := True, recvq := [], sendq := []\<rparr>)
          \<and> nextc s' = nextc s \<and> nextg s' = nextg s \<and> nextw s' = nextw s
          \<and> set rws \<subseteq> set (recvq (chans s c)) \<and> set sws \<subseteq> set (sendq (chans s c))
          \<and> distinct (map (grp s) (rws @ sws))
          \<and> (\<forall>w\<in>set (rws @ sws). which (groups s (grp s w)) = None
                \<and> groups s' (grp s w) = (groups s (grp s w))\<lparr>which := Some (Waiter w), sema := False\<rparr>)
          \<and> (\<forall>g. g \<notin> grp s ` set (rws @ sws) \<longrightarrow> groups s' g = groups s g)
          \<and> (\<forall>w\<in>set (recvq (chans s c)) \<union> set (sendq (chans s c)). which (groups s' (grp s w)) \<noteq> None)
          \<and> (\<forall>w\<in>set (recvq (chans s c)). which (groups s (grp s w)) = None
                \<longrightarrow> grp s w \<in> grp s ` set rws)
          \<and> (\<forall>w. waiters s' w =
                (if w \<in> set sws
                 then (if w \<in> set rws then (waiters s w)\<lparr>rx_ok := Some (None, False)\<rparr> else waiters s w)
                        \<lparr>ok := Some False\<rparr>
                 else (if w \<in> set rws then (waiters s w)\<lparr>rx_ok := Some (None, False)\<rparr> else waiters s w)))"
proof -
  let ?R = "recvq (chans s c)" and ?S = "sendq (chans s c)"
  define s0 where "s0 = chan_upd c (\<lambda>ch. ch\<lparr>closed := True\<rparr>) (acquire c s)"
  have s0: "groups s0 = groups s" "waiters s0 = waiters s" "grp s0 = grp s"
    "recvq (chans s0 c) = ?R" "sendq (chans s0 c) = ?S"
    by (simp_all add: s0_def grp_def fun_eq_iff)
  have "\<forall>w\<in>set ?R. \<not> wg_mu (groups s0 (grp s0 w))" using free by (simp add: s0)
  from close_drain_spec [OF this, of "[]"] obtain rws s1 where
    d1: "close_drain s0 ?R [] = (Inr rws, [], s1)" "chans s1 = chans s0" "waiters s1 = waiters s0"
        "nextc s1 = nextc s0" "nextg s1 = nextg s0" "nextw s1 = nextw s0"
        "set rws \<subseteq> set ?R" "distinct (map (grp s) rws)"
        "\<forall>w\<in>set rws. which (groups s (grp s w)) = None
                \<and> groups s1 (grp s w) = (groups s (grp s w))\<lparr>which := Some (Waiter w)\<rparr>"
        "\<forall>g. g \<notin> grp s ` set rws \<longrightarrow> groups s1 g = groups s g"
        "\<forall>w\<in>set ?R. which (groups s1 (grp s w)) \<noteq> None"
    by (auto simp: s0)
  define s2 where "s2 = chan_upd c (\<lambda>ch. ch\<lparr>recvq := []\<rparr>) s1"
  have s2: "groups s2 = groups s1" "waiters s2 = waiters s" "grp s2 = grp s"
    "sendq (chans s2 c) = ?S"
    using d1(2,3) by (simp_all add: s2_def s0 grp_def fun_eq_iff)
  have mu1: "wg_mu (groups s1 g) = wg_mu (groups s g)" for g
  proof (cases "g \<in> grp s ` set rws")
    case True
    then obtain w where "w \<in> set rws" "g = grp s w" by auto
    with d1(9) show ?thesis by simp
  next
    case False
    with d1(10) show ?thesis by simp
  qed
  have "\<forall>w\<in>set ?S. \<not> wg_mu (groups s2 (grp s2 w))" using free by (simp add: s2 mu1)
  from close_drain_spec [OF this, of "[]"] obtain sws s3 where
    d2: "close_drain s2 ?S [] = (Inr sws, [], s3)" "chans s3 = chans s2" "waiters s3 = waiters s2"
        "nextc s3 = nextc s2" "nextg s3 = nextg s2" "nextw s3 = nextw s2"
        "set sws \<subseteq> set ?S" "distinct (map (grp s) sws)"
        "\<forall>w\<in>set sws. which (groups s1 (grp s w)) = None
                \<and> groups s3 (grp s w) = (groups s1 (grp s w))\<lparr>which := Some (Waiter w)\<rparr>"
        "\<forall>g. g \<notin> grp s ` set sws \<longrightarrow> groups s3 g = groups s1 g"
        "\<forall>w\<in>set ?S. which (groups s3 (grp s w)) \<noteq> None"
    by (auto simp: s2)
  define s5 where "s5 = release c (chan_upd c (\<lambda>ch. ch\<lparr>sendq := []\<rparr>) s3)"
  have s5: "groups s5 = groups s3" "waiters s5 = waiters s" "grp s5 = grp s"
    using d2(3) by (simp_all add: s5_def s2 grp_def fun_eq_iff)
  have disj: "grp s w \<noteq> grp s w'" if "w \<in> set rws" "w' \<in> set sws" for w w'
  proof
    assume e: "grp s w = grp s w'"
    from d1(9) that(1) have "which (groups s1 (grp s w)) = Some (Waiter w)" by simp
    moreover from d2(9) that(2) have "which (groups s1 (grp s w')) = None" by simp
    ultimately show False using e by simp
  qed
  have nr: "grp s w \<notin> grp s ` set sws" if "w \<in> set rws" for w
    using disj [OF that] by (metis imageE)
  have ns: "grp s w \<notin> grp s ` set rws" if "w \<in> set sws" for w
    using disj [OF _ that] by (metis imageE)
  have r3: "groups s3 (grp s w) = (groups s (grp s w))\<lparr>which := Some (Waiter w)\<rparr>"
    if "w \<in> set rws" for w
  proof -
    from d2(10) nr [OF that] have "groups s3 (grp s w) = groups s1 (grp s w)" by blast
    with d1(9) that show ?thesis by fastforce
  qed
  have s1s: "groups s1 (grp s w) = groups s (grp s w)" if "w \<in> set sws" for w
    using d1(10) ns [OF that] by blast
  have nonel: "which (groups s (grp s w)) = None" if "w \<in> set sws" for w
    using d2(9) that s1s [OF that] by fastforce
  have w3: "groups s3 (grp s w) = (groups s (grp s w))\<lparr>which := Some (Waiter w)\<rparr>"
    if "w \<in> set sws" for w
    using d2(9) that s1s [OF that] by fastforce
  have "\<forall>w\<in>set rws. which (groups s5 (grp s5 w)) \<noteq> None" by (simp add: s5 r3)
  from wakeup_recvv_spec [OF this] obtain s6 where
    k1: "wakeup_recvv s5 rws = (Inr (), s6)" "chans s6 = chans s5"
        "nextc s6 = nextc s5" "nextg s6 = nextg s5" "nextw s6 = nextw s5"
        "\<forall>g. groups s6 g = (if g \<in> grp s ` set rws then (groups s3 g)\<lparr>sema := False\<rparr> else groups s3 g)"
        "\<forall>w. waiters s6 w = (if w \<in> set rws then (waiters s w)\<lparr>rx_ok := Some (None, False)\<rparr>
                                  else waiters s w)"
    by (auto simp: s5)
  have g6: "grp s6 = grp s" using k1(7) by (simp add: grp_def fun_eq_iff)
  have "\<forall>w\<in>set sws. which (groups s6 (grp s6 w)) \<noteq> None"
    using k1(6) by (simp add: g6 w3)
  from wakeup_sendv_spec [OF this] obtain s7 where
    k2: "wakeup_sendv s6 sws = (Inr (), s7)" "chans s7 = chans s6"
        "nextc s7 = nextc s6" "nextg s7 = nextg s6" "nextw s7 = nextw s6"
        "\<forall>g. groups s7 g = (if g \<in> grp s ` set sws then (groups s6 g)\<lparr>sema := False\<rparr> else groups s6 g)"
        "\<forall>w. waiters s7 w = (if w \<in> set sws then (waiters s6 w)\<lparr>ok := Some False\<rparr> else waiters s6 w)"
    by (auto simp: g6)
  have sq1: "sendq (chans s1 c) = ?S" by (simp add: d1(2) s0)
  have run: "close s (Chan c) = (Inr (), s7)"
    using m opn d1(1) d2(1) k1(1) k2(1)
    by (simp add: close_def s0_def [symmetric] Let_def s0 s2_def [symmetric] s2 sq1
        s5_def [symmetric])
  have ch: "chans s7 = (chans s)(c := (chans s c)\<lparr>closed := True, recvq := [], sendq := []\<rparr>)"
    using m by (simp add: k2(2) k1(2) s5_def d2(2) s2_def d1(2) s0_def fun_eq_iff)
  have nx: "nextc s7 = nextc s" "nextg s7 = nextg s" "nextw s7 = nextw s"
    by (simp_all add: k2 k1 s5_def d2 s2_def d1 s0_def)
  have dist: "distinct (map (grp s) (rws @ sws))"
    using d1(8) d2(8) disj by auto
  have win: "\<forall>w\<in>set (rws @ sws). which (groups s (grp s w)) = None
                \<and> groups s7 (grp s w) = (groups s (grp s w))\<lparr>which := Some (Waiter w), sema := False\<rparr>"
  proof
    fix w assume "w \<in> set (rws @ sws)"
    then consider "w \<in> set rws" | "w \<in> set sws" by auto
    then show "which (groups s (grp s w)) = None
                \<and> groups s7 (grp s w) = (groups s (grp s w))\<lparr>which := Some (Waiter w), sema := False\<rparr>"
    proof cases
      case 1
      with nr [OF 1] d1(9) show ?thesis by (simp add: k2(6) k1(6) r3)
    next
      case 2
      with ns [OF 2] nonel show ?thesis by (simp add: k2(6) k1(6) w3)
    qed
  qed
  have oth: "\<forall>g. g \<notin> grp s ` set (rws @ sws) \<longrightarrow> groups s7 g = groups s g"
    using d1(10) d2(10) by (simp add: k2(6) k1(6) image_Un)
  have wh7: "which (groups s7 g) = which (groups s3 g)" for g
    by (simp add: k2(6) k1(6))
  have dec: "\<forall>w\<in>set ?R \<union> set ?S. which (groups s7 (grp s w)) \<noteq> None"
  proof
    fix w assume "w \<in> set ?R \<union> set ?S"
    then consider "w \<in> set ?R" | "w \<in> set ?S" by auto
    then show "which (groups s7 (grp s w)) \<noteq> None"
    proof cases
      case 1
      with d1(11) have a: "which (groups s1 (grp s w)) \<noteq> None" by simp
      show ?thesis
      proof (cases "grp s w \<in> grp s ` set sws")
        case True
        then obtain w' where "w' \<in> set sws" "grp s w' = grp s w" by auto
        with w3 [of w'] show ?thesis by (simp add: wh7)
      next
        case False
        with d2(10) a show ?thesis by (simp add: wh7)
      qed
    next
      case 2
      with d2(11) show ?thesis by (simp add: wh7)
    qed
  qed
  have wt: "\<forall>w. waiters s7 w =
                (if w \<in> set sws
                 then (if w \<in> set rws then (waiters s w)\<lparr>rx_ok := Some (None, False)\<rparr> else waiters s w)
                        \<lparr>ok := Some False\<rparr>
                 else (if w \<in> set rws then (waiters s w)\<lparr>rx_ok := Some (None, False)\<rparr> else waiters s w))"
    by (simp add: k2(7) k1(7))
  have inr: "\<forall>w\<in>set ?R. which (groups s (grp s w)) = None \<longrightarrow> grp s w \<in> grp s ` set rws"
    using d1(10) d1(11) by metis
  from run ch nx d1(7) d2(7) dist win oth dec inr wt show ?thesis by blast
qed

lemma close_wakes:
  assumes "unlocked s c" and "\<not> closed (chans s c)"
  shows "\<exists>s'. close s (Chan c) = (Inr (), s')
          \<and> chans s' = (chans s)(c := (chans s c)\<lparr>closed := True, recvq := [], sendq := []\<rparr>)
          \<and> grp s' = grp s
          \<and> (\<forall>w. rx_ok (waiters s' w) = rx_ok (waiters s w) \<or> rx_ok (waiters s' w) = Some (None, False))
          \<and> (\<forall>w\<in>set (recvq (chans s c)). parked s w \<and> alone s c w
                \<longrightarrow> woken s' w \<and> rx_ok (waiters s' w) = Some (None, False))
          \<and> (\<forall>w\<in>set (sendq (chans s c)). parked s w \<and> alone s c w \<and> w \<notin> set (recvq (chans s c))
                \<longrightarrow> woken s' w \<and> ok (waiters s' w) = Some False)
          \<and> (\<forall>w\<in>set (recvq (chans s c)) \<union> set (sendq (chans s c)). parked s w \<longrightarrow>
                (\<exists>w'\<in>set (recvq (chans s c)) \<union> set (sendq (chans s c)).
                   grp s w' = grp s w \<and> woken s' w'
                   \<and> (w' \<in> set (recvq (chans s c)) \<and> rx_ok (waiters s' w') = Some (None, False)
                      \<or> w' \<in> set (sendq (chans s c)) \<and> ok (waiters s' w') = Some False)))"
proof -
  let ?R = "recvq (chans s c)" and ?S = "sendq (chans s c)"
  from assms have m: "\<not> ch_mu (chans s c)"
    and free: "\<forall>w\<in>set ?R \<union> set ?S. \<not> wg_mu (groups s (grp s w))"
    by (simp_all add: unlocked_def)
  from close_effect [OF m assms(2) free] obtain s' rws sws where
    run: "close s (Chan c) = (Inr (), s')"
    and ch: "chans s' = (chans s)(c := (chans s c)\<lparr>closed := True, recvq := [], sendq := []\<rparr>)"
    and sub: "set rws \<subseteq> set ?R" "set sws \<subseteq> set ?S"
    and win: "\<forall>w\<in>set (rws @ sws). which (groups s (grp s w)) = None
                \<and> groups s' (grp s w) = (groups s (grp s w))\<lparr>which := Some (Waiter w), sema := False\<rparr>"
    and oth: "\<forall>g. g \<notin> grp s ` set (rws @ sws) \<longrightarrow> groups s' g = groups s g"
    and dec: "\<forall>w\<in>set ?R \<union> set ?S. which (groups s' (grp s w)) \<noteq> None"
    and inr: "\<forall>w\<in>set ?R. which (groups s (grp s w)) = None \<longrightarrow> grp s w \<in> grp s ` set rws"
    and wt: "\<forall>w. waiters s' w =
                (if w \<in> set sws
                 then (if w \<in> set rws then (waiters s w)\<lparr>rx_ok := Some (None, False)\<rparr> else waiters s w)
                        \<lparr>ok := Some False\<rparr>
                 else (if w \<in> set rws then (waiters s w)\<lparr>rx_ok := Some (None, False)\<rparr> else waiters s w))"
    by blast
  have g: "grp s' = grp s" by (simp add: grp_def fun_eq_iff wt)
  have wk: "woken s' w" if "w \<in> set (rws @ sws)" for w
    using win that by (simp add: woken_def g)
  have rx: "rx_ok (waiters s' w) = Some (None, False)" if "w \<in> set rws" for w
    using that by (simp add: wt)
  have okf: "ok (waiters s' w) = Some False" if "w \<in> set sws" for w
    using that by (simp add: wt)
  have rep: "grp s w \<in> grp s ` set (rws @ sws)"
    if "w \<in> set ?R \<union> set ?S" "parked s w" for w
  proof (rule ccontr)
    assume "\<not> ?thesis"
    with oth have "groups s' (grp s w) = groups s (grp s w)" by blast
    moreover from dec that(1) have "which (groups s' (grp s w)) \<noteq> None" by blast
    ultimately show False using that(2) by (simp add: parked_def)
  qed
  have a: "\<forall>w. rx_ok (waiters s' w) = rx_ok (waiters s w) \<or> rx_ok (waiters s' w) = Some (None, False)"
    by (simp add: wt)
  have b: "\<forall>w\<in>set ?R. parked s w \<and> alone s c w
                \<longrightarrow> woken s' w \<and> rx_ok (waiters s' w) = Some (None, False)"
  proof (intro ballI impI)
    fix w assume w: "w \<in> set ?R" and pa: "parked s w \<and> alone s c w"
    with inr have "grp s w \<in> grp s ` set rws" by (simp add: parked_def)
    then obtain w' where w': "w' \<in> set rws" "grp s w' = grp s w"
      by (metis imageE)
    with sub pa have "w' = w" by (auto simp: alone_def)
    with w' wk [of w] rx [of w] show "woken s' w \<and> rx_ok (waiters s' w) = Some (None, False)"
      by simp
  qed
  have c: "\<forall>w\<in>set ?S. parked s w \<and> alone s c w \<and> w \<notin> set ?R
                \<longrightarrow> woken s' w \<and> ok (waiters s' w) = Some False"
  proof (intro ballI impI)
    fix w assume w: "w \<in> set ?S" and pa: "parked s w \<and> alone s c w \<and> w \<notin> set ?R"
    then have "grp s w \<in> grp s ` set (rws @ sws)" using rep [of w] by simp
    then obtain w' where w': "w' \<in> set (rws @ sws)" "grp s w' = grp s w"
      by (metis imageE)
    with sub pa have "w' = w" by (auto simp: alone_def)
    with w' pa sub have "w \<in> set sws" by auto
    with wk [of w] okf [of w] show "woken s' w \<and> ok (waiters s' w) = Some False" by simp
  qed
  have d: "\<forall>w\<in>set ?R \<union> set ?S. parked s w \<longrightarrow>
                (\<exists>w'\<in>set ?R \<union> set ?S.
                   grp s w' = grp s w \<and> woken s' w'
                   \<and> (w' \<in> set ?R \<and> rx_ok (waiters s' w') = Some (None, False)
                      \<or> w' \<in> set ?S \<and> ok (waiters s' w') = Some False))"
  proof (intro ballI impI)
    fix w assume w: "w \<in> set ?R \<union> set ?S" and pa: "parked s w"
    then have "grp s w \<in> grp s ` set (rws @ sws)" using rep [of w] by simp
    then obtain w' where w': "w' \<in> set (rws @ sws)" "grp s w' = grp s w"
      by (metis imageE)
    from w'(1) consider "w' \<in> set rws" | "w' \<in> set sws" by auto
    then show "\<exists>w'\<in>set ?R \<union> set ?S.
                   grp s w' = grp s w \<and> woken s' w'
                   \<and> (w' \<in> set ?R \<and> rx_ok (waiters s' w') = Some (None, False)
                      \<or> w' \<in> set ?S \<and> ok (waiters s' w') = Some False)"
    proof cases
      case 1
      with w' sub wk [of w'] rx [of w'] show ?thesis by (intro bexI [of _ w']) auto
    next
      case 2
      with w' sub wk [of w'] okf [of w'] show ?thesis by (intro bexI [of _ w']) auto
    qed
  qed
  from run ch g a b c d show ?thesis by blast
qed

lemma stale_acquire [simp]: "stale (acquire c s) w = stale s w"
  by (simp add: stale_def)

lemma trysend_False:
  assumes "trysend s c x = (Inr False, s')"
  shows "\<not> closed (chans s c)
       \<and> (if cap (chans s c) = 0
          then (\<forall>w\<in>set (recvq (chans s c)). stale s w) \<and> s' = chan_upd c (\<lambda>ch. ch\<lparr>recvq := []\<rparr>) s
          else cap (chans s c) \<le> length (dataq (chans s c)) \<and> s' = s)"
proof -
  have nc: "\<not> closed (chans s c)"
    using assms by (auto simp: trysend_def split: if_splits)
  show ?thesis
  proof (cases "cap (chans s c) = 0")
    case True
    obtain a q s2 where d: "dequeWaiter s (recvq (chans s c)) = (a, q, s2)"
      using prod_cases3 by blast
    with assms True nc have a: "a = Inr None"
      by (auto simp: trysend_def Let_def split: sum.splits option.splits prod.splits)
    from d a have "\<forall>w\<in>set (recvq (chans s c)). stale s w" "s2 = s" "q = []"
      using dequeWaiter_None_stale dequeWaiter_None by blast+
    with assms True nc d a show ?thesis by (simp add: trysend_def)
  next
    case False
    obtain a q s2 where d:
      "dequeWaiter (chan_upd c (\<lambda>ch. ch\<lparr>dataq := dataq ch @ [x]\<rparr>) s) (recvq (chans s c)) = (a, q, s2)"
      using prod_cases3 by blast
    have "cap (chans s c) \<le> length (dataq (chans s c))"
    proof (rule ccontr)
      assume "\<not> ?thesis"
      with assms False nc d show False
        by (auto simp: trysend_def Let_def split: sum.splits option.splits prod.splits list.splits)
    qed
    with assms False nc show ?thesis by (simp add: trysend_def)
  qed
qed

lemma tryrecv_False:
  assumes "tryrecv s c = (Inr (rxok, False), s')"
  shows "dataq (chans s c) = [] \<and> \<not> closed (chans s c) \<and> rxok = (None, False)
       \<and> (\<forall>w\<in>set (sendq (chans s c)). stale s w) \<and> s' = chan_upd c (\<lambda>ch. ch\<lparr>sendq := []\<rparr>) s"
proof -
  have e: "dataq (chans s c) = []"
  proof (cases "dataq (chans s c)")
    case Nil
    then show ?thesis .
  next
    case (Cons rx rest)
    with assms show ?thesis
      by (auto simp: tryrecv_def Let_def split: sum.splits option.splits prod.splits wclass.splits)
  qed
  have nc: "\<not> closed (chans s c)"
    using assms e by (auto simp: tryrecv_def split: if_splits)
  obtain a q s2 where d: "dequeWaiter s (sendq (chans s c)) = (a, q, s2)"
    using prod_cases3 by blast
  with assms e nc have a: "a = Inr None"
    by (auto simp: tryrecv_def Let_def split: sum.splits option.splits prod.splits wclass.splits)
  from d a have "\<forall>w\<in>set (sendq (chans s c)). stale s w" "s2 = s" "q = []"
    using dequeWaiter_None_stale dequeWaiter_None by blast+
  with assms e nc d a show ?thesis by (simp add: tryrecv_def)
qed

lemma try_to_win_no_wait: "try_to_win s g w = (Inl e, s1) \<Longrightarrow> e = BlocksForever"
  by (auto simp: try_to_win_def split: if_splits)

lemma dequeWaiter_no_wait: "dequeWaiter s q = (Inl e, q', s1) \<Longrightarrow> e = BlocksForever"
proof (induction q arbitrary: s)
  case Nil
  then show ?case by simp
next
  case (Cons w q)
  obtain r s2 where t: "try_to_win s (group (waiters s w)) w = (r, s2)"
    by (cases "try_to_win s (group (waiters s w)) w") auto
  show ?case
  proof (cases r)
    case (Inl e')
    with Cons.prems t try_to_win_no_wait [of s _ w e' s2] show ?thesis by simp
  next
    case (Inr b)
    with Cons t show ?thesis by (cases b) auto
  qed
qed

lemma send_parks:
  assumes "send s (Chan c) v = (Inl (Waits g me), s1)"
  shows "g = nextg s \<and> me = nextw s \<and> \<not> ch_mu (chans s c) \<and> \<not> closed (chans s c)
       \<and> (if cap (chans s c) = 0 then \<forall>w\<in>set (recvq (chans s c)). stale s w
          else cap (chans s c) \<le> length (dataq (chans s c)))
       \<and> chans s1 = (chans s)(c := (chans s c)
             \<lparr>recvq := (if cap (chans s c) = 0 then [] else recvq (chans s c)),
              sendq := sendq (chans s c) @ [me]\<rparr>)
       \<and> groups s1 = (groups s)(g := \<lparr>waitv = [me], sema = True, wg_mu = False, which = None\<rparr>)
       \<and> waiters s1 = (waiters s)(me := \<lparr>group = g, chan = c, cls = SendWaiting v, rx_ok = None,
                                           ok = None, sel_n = None, sel_commaok = None\<rparr>)
       \<and> nextc s1 = nextc s \<and> nextg s1 = Suc (nextg s) \<and> nextw s1 = Suc (nextw s)"
proof -
  have m: "\<not> ch_mu (chans s c)"
    using assms by (auto simp: send_def split: if_splits)
  obtain r s' where t: "trysend (acquire c s) c v = (r, s')"
    by (cases "trysend (acquire c s) c v") auto
  have no_wait: "r \<noteq> Inl (Waits g me)"
  proof
    assume "r = Inl (Waits g me)"
    with t show False
      by (auto simp: trysend_def Let_def recv_wakeup_def wg_wakeup_def
               split: if_splits sum.splits option.splits prod.splits list.splits
               dest!: dequeWaiter_no_wait)
  qed
  with assms m t have r: "r = Inr False"
    by (auto simp: send_def split: sum.splits bool.splits prod.splits)
  note f = trysend_False [OF t [unfolded r]]
  have nc: "\<not> closed (chans s c)" using f by simp
  have st: "if cap (chans s c) = 0 then \<forall>w\<in>set (recvq (chans s c)). stale s w
            else cap (chans s c) \<le> length (dataq (chans s c))"
    using f by (simp split: if_splits)
  have s': "s' = (if cap (chans s c) = 0 then chan_upd c (\<lambda>ch. ch\<lparr>recvq := []\<rparr>) (acquire c s)
                  else acquire c s)"
    using f by (simp split: if_splits)
  have s1: "s1 = release c (chan_upd c (\<lambda>ch. ch\<lparr>sendq := sendq ch @ [me]\<rparr>)
                   (snd (new_SendWaiting (snd (new_WaitGroup s')) g c v)))"
    and g: "g = nextg s'" and me: "me = nextw s'"
    using assms m t r
    by (auto simp: send_def new_WaitGroup_def new_SendWaiting_def register_def split: prod.splits)
  have g': "g = nextg s" and me': "me = nextw s" using g me by (simp_all add: s')
  have "chans s1 = (chans s)(c := (chans s c)
             \<lparr>recvq := (if cap (chans s c) = 0 then [] else recvq (chans s c)),
              sendq := sendq (chans s c) @ [me]\<rparr>)"
    using m by (simp add: s1 s' new_WaitGroup_def new_SendWaiting_def register_def fun_eq_iff)
  moreover have "groups s1 = (groups s)(g := \<lparr>waitv = [me], sema = True, wg_mu = False, which = None\<rparr>)"
    by (simp add: s1 s' g' me' new_WaitGroup_def new_SendWaiting_def register_def group_upd_def
        fun_eq_iff)
  moreover have "waiters s1 = (waiters s)(me := \<lparr>group = g, chan = c, cls = SendWaiting v,
                     rx_ok = None, ok = None, sel_n = None, sel_commaok = None\<rparr>)"
    by (simp add: s1 s' g' me' new_WaitGroup_def new_SendWaiting_def register_def group_upd_def
        fun_eq_iff)
  moreover have "nextc s1 = nextc s \<and> nextg s1 = Suc (nextg s) \<and> nextw s1 = Suc (nextw s)"
    by (simp add: s1 s' new_WaitGroup_def new_SendWaiting_def register_def group_upd_def)
  ultimately show ?thesis using g' me' m nc st by simp
qed

lemma recv_parks:
  assumes "recv_ok s (Chan c) = (Inl (Waits g me), s1)"
  shows "g = nextg s \<and> me = nextw s \<and> \<not> ch_mu (chans s c) \<and> \<not> closed (chans s c)
       \<and> dataq (chans s c) = [] \<and> (\<forall>w\<in>set (sendq (chans s c)). stale s w)
       \<and> chans s1 = (chans s)(c := (chans s c)\<lparr>sendq := [], recvq := recvq (chans s c) @ [me]\<rparr>)
       \<and> groups s1 = (groups s)(g := \<lparr>waitv = [me], sema = True, wg_mu = False, which = None\<rparr>)
       \<and> waiters s1 = (waiters s)(me := \<lparr>group = g, chan = c, cls = RecvWaiting, rx_ok = None,
                                           ok = None, sel_n = None, sel_commaok = None\<rparr>)
       \<and> nextc s1 = nextc s \<and> nextg s1 = Suc (nextg s) \<and> nextw s1 = Suc (nextw s)"
proof -
  have m: "\<not> ch_mu (chans s c)"
    using assms by (auto simp: recv_ok_def split: if_splits)
  obtain r s' where t: "tryrecv (acquire c s) c = (r, s')"
    by (cases "tryrecv (acquire c s) c") auto
  have no_wait: "r \<noteq> Inl (Waits g me)"
  proof
    assume "r = Inl (Waits g me)"
    with t show False
      by (auto simp: tryrecv_def Let_def send_wakeup_def wg_wakeup_def
               split: if_splits sum.splits option.splits prod.splits list.splits wclass.splits
               dest!: dequeWaiter_no_wait)
  qed
  with assms m t obtain rxok where r: "r = Inr (rxok, False)"
    by (auto simp: recv_ok_def split: sum.splits bool.splits prod.splits)
  note f = tryrecv_False [OF t [unfolded r]]
  have nc: "\<not> closed (chans s c)" and e: "dataq (chans s c) = []"
    and st: "\<forall>w\<in>set (sendq (chans s c)). stale s w"
    using f by simp_all
  have s': "s' = chan_upd c (\<lambda>ch. ch\<lparr>sendq := []\<rparr>) (acquire c s)"
    using f by simp
  have s1: "s1 = release c (chan_upd c (\<lambda>ch. ch\<lparr>recvq := recvq ch @ [me]\<rparr>)
                   (snd (new_RecvWaiting (snd (new_WaitGroup s')) g c)))"
    and g: "g = nextg s'" and me: "me = nextw s'"
    using assms m t r
    by (auto simp: recv_ok_def new_WaitGroup_def new_RecvWaiting_def register_def split: prod.splits)
  have g': "g = nextg s" and me': "me = nextw s" using g me by (simp_all add: s')
  have "chans s1 = (chans s)(c := (chans s c)\<lparr>sendq := [], recvq := recvq (chans s c) @ [me]\<rparr>)"
    using m by (simp add: s1 s' new_WaitGroup_def new_RecvWaiting_def register_def fun_eq_iff)
  moreover have "groups s1 = (groups s)(g := \<lparr>waitv = [me], sema = True, wg_mu = False, which = None\<rparr>)"
    by (simp add: s1 s' g' me' new_WaitGroup_def new_RecvWaiting_def register_def group_upd_def
        fun_eq_iff)
  moreover have "waiters s1 = (waiters s)(me := \<lparr>group = g, chan = c, cls = RecvWaiting,
                     rx_ok = None, ok = None, sel_n = None, sel_commaok = None\<rparr>)"
    by (simp add: s1 s' g' me' new_WaitGroup_def new_RecvWaiting_def register_def group_upd_def
        fun_eq_iff)
  moreover have "nextc s1 = nextc s \<and> nextg s1 = Suc (nextg s) \<and> nextw s1 = Suc (nextw s)"
    by (simp add: s1 s' new_WaitGroup_def new_RecvWaiting_def register_def group_upd_def)
  ultimately show ?thesis using g' me' m nc e st by simp
qed

lemma sync_world_simps:
  "chans sync_world 0 = pychan_init 0" "nextc sync_world = 1" "nextg sync_world = 0"
  "nextw sync_world = 0" "alloc_ok sync_world"
  by (simp_all add: sync_world_def new_pychan_def world0_def alloc_ok_def pychan_init_def)

lemma recv_sync_world: "recv_ok sync_world (Chan 0) = (Inl (Waits 0 0), parked_recv_world)"
proof -
  have "fst (recv_ok sync_world (Chan 0)) = Inl (Waits 0 0)"
    by (simp add: recv_ok_def tryrecv_def sync_world_simps pychan_init_def new_WaitGroup_def
        new_RecvWaiting_def)
  then show ?thesis by (simp add: parked_recv_world_def prod_eq_iff)
qed

lemma send_sync_world: "send sync_world (Chan 0) 5 = (Inl (Waits 0 0), parked_send_world)"
proof -
  have "fst (send sync_world (Chan 0) 5) = Inl (Waits 0 0)"
    by (simp add: send_def trysend_def sync_world_simps pychan_init_def new_WaitGroup_def
        new_SendWaiting_def)
  then show ?thesis by (simp add: parked_send_world_def prod_eq_iff)
qed

lemma parked_recv_world_simps:
  "chans parked_recv_world 0 = (pychan_init 0)\<lparr>recvq := [0]\<rparr>"
  "groups parked_recv_world 0 = \<lparr>waitv = [0], sema = True, wg_mu = False, which = None\<rparr>"
  "grp parked_recv_world 0 = 0"
  using recv_parks [OF recv_sync_world]
  by (simp_all add: sync_world_simps pychan_init_def grp_def)

lemma parked_send_world_simps:
  "chans parked_send_world 0 = (pychan_init 0)\<lparr>sendq := [0]\<rparr>"
  "groups parked_send_world 0 = \<lparr>waitv = [0], sema = True, wg_mu = False, which = None\<rparr>"
  "grp parked_send_world 0 = 0"
  using send_parks [OF send_sync_world]
  by (simp_all add: sync_world_simps pychan_init_def grp_def)

text \<open>
  C4. \<open>close\<close> panics with \<open>close of nil channel\<close> on the nil channel and with
  \<open>close of closed channel\<close> on a closed channel, leaving the world as it was. On an
  open channel with no lock in the way it returns; the channel is then closed with both
  queues empty and nothing else changed. Every parked receiver that is alone in its
  group is woken with \<open>(None, False)\<close>, every such sender with \<open>ok = False\<close>. Of a
  group that pyselect queued with several waiters, one queued waiter is woken in that
  way; the others are dropped.
\<close>

theorem close_panics_or_wakes:
  "close s pynilchan = (Inl (Panic ''close of nil channel''), s)
   \<and> (\<not> ch_mu (chans s c) \<and> closed (chans s c)
        \<longrightarrow> close s (Chan c) = (Inl (Panic ''close of closed channel''), s))
   \<and> (unlocked s c \<and> \<not> closed (chans s c) \<longrightarrow>
        (\<exists>s'. close s (Chan c) = (Inr (), s')
          \<and> chans s' = (chans s)(c := (chans s c)\<lparr>closed := True, recvq := [], sendq := []\<rparr>)
          \<and> (\<forall>w\<in>set (recvq (chans s c)). parked s w \<and> alone s c w
                \<longrightarrow> woken s' w \<and> rx_ok (waiters s' w) = Some (None, False))
          \<and> (\<forall>w\<in>set (sendq (chans s c)). parked s w \<and> alone s c w \<and> w \<notin> set (recvq (chans s c))
                \<longrightarrow> woken s' w \<and> ok (waiters s' w) = Some False)
          \<and> (\<forall>w\<in>set (recvq (chans s c)) \<union> set (sendq (chans s c)). parked s w \<longrightarrow>
                (\<exists>w'\<in>set (recvq (chans s c)) \<union> set (sendq (chans s c)).
                   grp s w' = grp s w \<and> woken s' w'
                   \<and> (w' \<in> set (recvq (chans s c)) \<and> rx_ok (waiters s' w') = Some (None, False)
                      \<or> w' \<in> set (sendq (chans s c)) \<and> ok (waiters s' w') = Some False)))))"
proof (intro conjI impI)
  show "close s pynilchan = (Inl (Panic ''close of nil channel''), s)"
    by (simp add: close_def)
  show "close s (Chan c) = (Inl (Panic ''close of closed channel''), s)"
    if "\<not> ch_mu (chans s c) \<and> closed (chans s c)"
    using that by (simp add: close_def)
next
  assume "unlocked s c \<and> \<not> closed (chans s c)"
  then have u: "unlocked s c" and o: "\<not> closed (chans s c)" by simp_all
  from close_wakes [OF u o] show
    "\<exists>s'. close s (Chan c) = (Inr (), s')
          \<and> chans s' = (chans s)(c := (chans s c)\<lparr>closed := True, recvq := [], sendq := []\<rparr>)
          \<and> (\<forall>w\<in>set (recvq (chans s c)). parked s w \<and> alone s c w
                \<longrightarrow> woken s' w \<and> rx_ok (waiters s' w) = Some (None, False))
          \<and> (\<forall>w\<in>set (sendq (chans s c)). parked s w \<and> alone s c w \<and> w \<notin> set (recvq (chans s c))
                \<longrightarrow> woken s' w \<and> ok (waiters s' w) = Some False)
          \<and> (\<forall>w\<in>set (recvq (chans s c)) \<union> set (sendq (chans s c)). parked s w \<longrightarrow>
                (\<exists>w'\<in>set (recvq (chans s c)) \<union> set (sendq (chans s c)).
                   grp s w' = grp s w \<and> woken s' w'
                   \<and> (w' \<in> set (recvq (chans s c)) \<and> rx_ok (waiters s' w') = Some (None, False)
                      \<or> w' \<in> set (sendq (chans s c)) \<and> ok (waiters s' w') = Some False)))"
    by blast
qed

theorem close_panics_or_wakes_witness:
  "unlocked parked_recv_world 0 \<and> \<not> closed (chans parked_recv_world 0)
   \<and> 0 \<in> set (recvq (chans parked_recv_world 0))
   \<and> parked parked_recv_world 0 \<and> alone parked_recv_world 0 0
   \<and> (\<exists>s'. close parked_recv_world (Chan 0) = (Inr (), s')
          \<and> closed (chans s' 0) \<and> recvq (chans s' 0) = [] \<and> sendq (chans s' 0) = []
          \<and> woken s' 0 \<and> rx_ok (waiters s' 0) = Some (None, False)
          \<and> close s' (Chan 0) = (Inl (Panic ''close of closed channel''), s'))"
proof -
  have h: "unlocked parked_recv_world 0" "\<not> closed (chans parked_recv_world 0)"
    "0 \<in> set (recvq (chans parked_recv_world 0))"
    "parked parked_recv_world 0" "alone parked_recv_world 0 0"
    by (simp_all add: unlocked_def parked_def alone_def parked_recv_world_simps pychan_init_def)
  from close_panics_or_wakes [of parked_recv_world 0] h obtain s' where
    s': "close parked_recv_world (Chan 0) = (Inr (), s')"
        "chans s' = (chans parked_recv_world)(0 := (chans parked_recv_world 0)
                       \<lparr>closed := True, recvq := [], sendq := []\<rparr>)"
        "woken s' 0 \<and> rx_ok (waiters s' 0) = Some (None, False)"
    by blast
  have "\<not> ch_mu (chans s' 0) \<and> closed (chans s' 0)"
    by (simp add: s'(2) parked_recv_world_simps pychan_init_def)
  with close_panics_or_wakes [of s' 0]
  have "close s' (Chan 0) = (Inl (Panic ''close of closed channel''), s')" by blast
  with h s' show ?thesis by (simp add: parked_recv_world_simps pychan_init_def)
qed

subsection \<open>send on a closed channel\<close>

lemma send_closed: 
  "\<not> ch_mu (chans s c) \<Longrightarrow> closed (chans s c) \<Longrightarrow>
   send s (Chan c) v = (Inl (Panic ''send on closed channel''), s)"
  by (simp add: send_def trysend_def release_acquire)

lemma send_parks_alone:
  assumes "alloc_ok s" and "send s (Chan c) v = (Inl (Waits g me), s1)"
  shows "me \<in> set (sendq (chans s1 c)) \<and> me \<notin> set (recvq (chans s1 c)) \<and> grp s1 me = g
       \<and> cls (waiters s1 me) = SendWaiting v \<and> parked s1 me \<and> alone s1 c me
       \<and> dataq (chans s1 c) = dataq (chans s c)
       \<and> (\<forall>w. w \<noteq> me \<longrightarrow> waiters s1 w = waiters s w)
       \<and> send_wait s1 g me = (Inl (Waits g me), s1)"
proof -
  note p = send_parks [OF assms(2)]
  from p have g: "g = nextg s" and me: "me = nextw s" by simp_all
  have old: "w < me \<and> grp s w < g"
    if "w \<in> set (recvq (chans s c)) \<union> set (sendq (chans s c))" for w
    using assms(1) that unfolding alloc_ok_def g me by blast
  have grp1: "grp s1 w = (if w = me then g else grp s w)" for w
    using p by (simp add: grp_def)
  have q1: "set (recvq (chans s1 c)) \<subseteq> set (recvq (chans s c))"
    "set (sendq (chans s1 c)) = insert me (set (sendq (chans s c)))"
    using p by auto
  have "me \<notin> set (recvq (chans s1 c))" using q1(1) old by blast
  moreover have "alone s1 c me"
    unfolding alone_def
  proof (intro ballI impI)
    fix w' assume w': "w' \<in> set (recvq (chans s1 c)) \<union> set (sendq (chans s1 c))"
      and e: "grp s1 w' = grp s1 me"
    show "w' = me"
    proof (rule ccontr)
      assume ne: "w' \<noteq> me"
      with w' q1 have "w' \<in> set (recvq (chans s c)) \<union> set (sendq (chans s c))" by auto
      from old [OF this] e ne show False by (simp add: grp1)
    qed
  qed
  moreover have "send_wait s1 g me = (Inl (Waits g me), s1)"
    using p by (simp add: send_wait_def)
  ultimately show ?thesis using p q1 by (simp add: grp1 parked_def)
qed

lemma close_parked_sender:
  assumes "me \<in> set (sendq (chans s1 c))" and "me \<notin> set (recvq (chans s1 c))"
    and "parked s1 me" and "alone s1 c me" and "unlocked s1 c" and "\<not> closed (chans s1 c)"
  shows "\<exists>s2 s3. close s1 (Chan c) = (Inr (), s2)
          \<and> chans s2 = (chans s1)(c := (chans s1 c)\<lparr>closed := True, recvq := [], sendq := []\<rparr>)
          \<and> ok (waiters s2 me) = Some False
          \<and> send_wait s2 (grp s1 me) me = (Inl (Panic ''send on closed channel''), s3)
          \<and> dataq (chans s2 c) = dataq (chans s1 c) \<and> chans s3 = chans s2 \<and> waiters s3 = waiters s2
          \<and> (\<forall>w. rx_ok (waiters s2 w) = rx_ok (waiters s1 w) \<or> rx_ok (waiters s2 w) = Some (None, False))"
proof -
  from close_wakes [OF assms(5,6)] obtain s2 where
    c: "close s1 (Chan c) = (Inr (), s2)"
    and ch: "chans s2 = (chans s1)(c := (chans s1 c)\<lparr>closed := True, recvq := [], sendq := []\<rparr>)"
    and g: "grp s2 = grp s1"
    and rx: "\<forall>w. rx_ok (waiters s2 w) = rx_ok (waiters s1 w) \<or> rx_ok (waiters s2 w) = Some (None, False)"
    and sn: "\<forall>w\<in>set (sendq (chans s1 c)). parked s1 w \<and> alone s1 c w \<and> w \<notin> set (recvq (chans s1 c))
                \<longrightarrow> woken s2 w \<and> ok (waiters s2 w) = Some False"
    by blast
  from sn assms(1-4) have w: "woken s2 me" and o: "ok (waiters s2 me) = Some False" by blast+
  let ?s3 = "group_upd (grp s1 me) (\<lambda>gr. gr\<lparr>sema := True\<rparr>) s2"
  have "send_wait s2 (grp s1 me) me = (Inl (Panic ''send on closed channel''), ?s3)"
    using w o by (simp add: send_wait_def woken_def g)
  with c o ch rx show ?thesis by (intro exI [of _ s2] exI [of _ ?s3]) simp
qed

text \<open>
  C3. \<open>send\<close> on a closed channel panics with \<open>send on closed channel\<close> and leaves the
  world as it was: nothing is buffered, nobody is woken. A \<open>send\<close> that parks leaves
  its waiter in \<open>_sendq\<close>, parked and alone in a new group, with the buffer and all
  other waiters untouched; the sender stays in \<open>g.wait()\<close>. When the channel is closed
  while such a waiter is parked, close sets its \<open>ok\<close> to \<open>False\<close>, and the rest of
  \<open>send\<close> panics with \<open>send on closed channel\<close>; the buffer is as before, and the
  only value a receiver gets from the close is \<open>(None, False)\<close>.
\<close>

theorem send_on_closed_panics:
  "(\<not> ch_mu (chans s c) \<and> closed (chans s c)
      \<longrightarrow> send s (Chan c) v = (Inl (Panic ''send on closed channel''), s))
   \<and> (alloc_ok s \<and> send s (Chan c) v = (Inl (Waits g me), s1) \<longrightarrow>
        me \<in> set (sendq (chans s1 c)) \<and> me \<notin> set (recvq (chans s1 c)) \<and> grp s1 me = g
        \<and> cls (waiters s1 me) = SendWaiting v \<and> parked s1 me \<and> alone s1 c me
        \<and> dataq (chans s1 c) = dataq (chans s c)
        \<and> (\<forall>w. w \<noteq> me \<longrightarrow> waiters s1 w = waiters s w)
        \<and> send_wait s1 g me = (Inl (Waits g me), s1))
   \<and> (me \<in> set (sendq (chans s1 c)) \<and> me \<notin> set (recvq (chans s1 c))
      \<and> parked s1 me \<and> alone s1 c me \<and> unlocked s1 c \<and> \<not> closed (chans s1 c) \<longrightarrow>
        (\<exists>s2 s3. close s1 (Chan c) = (Inr (), s2)
          \<and> chans s2 = (chans s1)(c := (chans s1 c)\<lparr>closed := True, recvq := [], sendq := []\<rparr>)
          \<and> ok (waiters s2 me) = Some False
          \<and> send_wait s2 (grp s1 me) me = (Inl (Panic ''send on closed channel''), s3)
          \<and> dataq (chans s2 c) = dataq (chans s1 c) \<and> chans s3 = chans s2 \<and> waiters s3 = waiters s2
          \<and> (\<forall>w. rx_ok (waiters s2 w) = rx_ok (waiters s1 w)
                 \<or> rx_ok (waiters s2 w) = Some (None, False))))"
  using send_closed [of s c v] send_parks_alone [of s c v g me s1] close_parked_sender [of me s1 c]
  by blast

theorem send_on_closed_panics_witness:
  "alloc_ok sync_world \<and> send sync_world (Chan 0) 5 = (Inl (Waits 0 0), parked_send_world)
   \<and> unlocked parked_send_world 0 \<and> \<not> closed (chans parked_send_world 0)
   \<and> 0 \<in> set (sendq (chans parked_send_world 0)) \<and> cls (waiters parked_send_world 0) = SendWaiting 5
   \<and> (\<exists>s2 s3. close parked_send_world (Chan 0) = (Inr (), s2)
          \<and> send_wait s2 0 0 = (Inl (Panic ''send on closed channel''), s3)
          \<and> dataq (chans s3 0) = []
          \<and> send s3 (Chan 0) 6 = (Inl (Panic ''send on closed channel''), s3))"
proof -
  note t = send_on_closed_panics [of sync_world 0 5 0 0 parked_send_world]
  from t sync_world_simps(5) send_sync_world have
    p: "0 \<in> set (sendq (chans parked_send_world 0))" "0 \<notin> set (recvq (chans parked_send_world 0))"
       "cls (waiters parked_send_world 0) = SendWaiting 5"
       "parked parked_send_world 0" "alone parked_send_world 0 0"
    by blast+
  have u: "unlocked parked_send_world 0" "\<not> closed (chans parked_send_world 0)"
    by (simp_all add: unlocked_def parked_send_world_simps pychan_init_def)
  from t p u obtain s2 s3 where
    c: "close parked_send_world (Chan 0) = (Inr (), s2)"
       "send_wait s2 (grp parked_send_world 0) 0 = (Inl (Panic ''send on closed channel''), s3)"
       "dataq (chans s2 0) = dataq (chans parked_send_world 0)" "chans s3 = chans s2"
       "chans s2 = (chans parked_send_world)(0 := (chans parked_send_world 0)
                      \<lparr>closed := True, recvq := [], sendq := []\<rparr>)"
    by blast
  have c2: "closed (chans s2 0) \<and> \<not> ch_mu (chans s2 0)"
    by (simp add: c(5) parked_send_world_simps pychan_init_def)
  with c(4) have "\<not> ch_mu (chans s3 0) \<and> closed (chans s3 0)" by simp
  with send_on_closed_panics [of s3 0 6]
  have "send s3 (Chan 0) 6 = (Inl (Panic ''send on closed channel''), s3)" by blast
  with c p u sync_world_simps(5) send_sync_world show ?thesis
    by (auto simp: parked_send_world_simps pychan_init_def)
qed

subsection \<open>The invariant through the channel operations\<close>

lemma chan_inv_mu [simp]: "chan_inv (ch\<lparr>ch_mu := b\<rparr>) = chan_inv ch"
  by (simp add: chan_inv_def)

lemma chan_inv_recvq: "chan_inv ch \<Longrightarrow> (recvq ch = [] \<longrightarrow> q = []) \<Longrightarrow> chan_inv (ch\<lparr>recvq := q\<rparr>)"
  by (auto simp: chan_inv_def)

lemma chan_inv_sendq: "chan_inv ch \<Longrightarrow> (sendq ch = [] \<longrightarrow> q = []) \<Longrightarrow> chan_inv (ch\<lparr>sendq := q\<rparr>)"
  by (auto simp: chan_inv_def)

lemma world_inv_upd:
  assumes "world_inv s" and "\<forall>c'. c' \<noteq> c \<longrightarrow> chans s' c' = chans s c'"
    and "\<not> ch_mu (chans s' c) \<longrightarrow> chan_inv (chans s' c)"
  shows "world_inv s'"
  using assms unfolding world_inv_def by metis

lemma world_inv_same: "world_inv s \<Longrightarrow> chans s' = chans s \<Longrightarrow> world_inv s'"
  by (simp add: world_inv_def)

lemma dequeWaiter_empty: "dequeWaiter s q = (r, q', s1) \<Longrightarrow> q = [] \<Longrightarrow> q' = [] \<and> r = Inr None"
  by simp

lemma dequeWaiter_chans: "dequeWaiter s q = (r, q', s1) \<Longrightarrow> chans s1 = chans s"
  using dequeWaiter_frame by blast

lemma trysend_inv:
  assumes mu: "ch_mu (chans s c)" and inv: "chan_inv (chans s c)" and t: "trysend s c x = (r, s')"
  shows "(\<forall>c'. c' \<noteq> c \<longrightarrow> chans s' c' = chans s c')
       \<and> (\<not> ch_mu (chans s' c) \<longrightarrow> chan_inv (chans s' c))"
proof (cases "closed (chans s c)")
  case True
  with t inv show ?thesis by (auto simp: trysend_def)
next
  case nc: False
  show ?thesis
  proof (cases "cap (chans s c) = 0")
    case True
    obtain a q s1 where d: "dequeWaiter s (recvq (chans s c)) = (a, q, s1)"
      using prod_cases3 by blast
    have c1: "chans s1 = chans s" using d by (rule dequeWaiter_chans)
    have q: "recvq (chans s c) = [] \<longrightarrow> q = []" using d dequeWaiter_empty by blast
    have i2: "chan_inv ((chans s c)\<lparr>recvq := q\<rparr>)" using inv q by (rule chan_inv_recvq)
    show ?thesis
    proof (cases a)
      case (Inl e)
      with t nc True d c1 mu show ?thesis by (auto simp: trysend_def)
    next
      case (Inr opt)
      show ?thesis
      proof (cases opt)
        case None
        with t nc True d c1 mu Inr show ?thesis by (auto simp: trysend_def)
      next
        case (Some w)
        obtain r' s3 where
          k: "recv_wakeup (release c (chan_upd c (\<lambda>ch. ch\<lparr>recvq := q\<rparr>) s1)) w (Some x) True = (r', s3)"
          by (cases "recv_wakeup (release c (chan_upd c (\<lambda>ch. ch\<lparr>recvq := q\<rparr>) s1)) w (Some x) True") auto
        have c3: "chans s3 = chans (release c (chan_upd c (\<lambda>ch. ch\<lparr>recvq := q\<rparr>) s1))"
          using k by (rule recv_wakeup_chans)
        from t nc True d Inr Some k have "s' = s3"
          by (auto simp: trysend_def split: sum.splits)
        with c3 c1 i2 show ?thesis by simp
      qed
    qed
  next
    case buffered: False
    show ?thesis
    proof (cases "cap (chans s c) \<le> length (dataq (chans s c))")
      case True
      with t nc buffered mu show ?thesis by (auto simp: trysend_def)
    next
      case room: False
      define s0 where "s0 = chan_upd c (\<lambda>ch. ch\<lparr>dataq := dataq ch @ [x]\<rparr>) s"
      obtain a q s1 where d: "dequeWaiter s0 (recvq (chans s0 c)) = (a, q, s1)"
        using prod_cases3 by blast
      have c1: "chans s1 = chans s0" using d by (rule dequeWaiter_chans)
      have q: "recvq (chans s c) = [] \<longrightarrow> q = [] \<and> a = Inr None"
        using d dequeWaiter_empty [OF d] by (simp add: s0_def)
      have dq: "dataq (chans s1 c) = dataq (chans s c) @ [x]" by (simp add: c1 s0_def)
      note unf = trysend_def s0_def [symmetric] Let_def
      show ?thesis
      proof (cases a)
        case (Inl e)
        with t nc buffered room d have "s' = chan_upd c (\<lambda>ch. ch\<lparr>recvq := q\<rparr>) s1"
          by (auto simp: unf)
        with c1 mu show ?thesis by (simp add: s0_def)
      next
        case (Inr opt)
        show ?thesis
        proof (cases opt)
          case None
          with d Inr have "q = []" using dequeWaiter_None by blast
          moreover from t nc buffered room d Inr None
          have "s' = release c (chan_upd c (\<lambda>ch. ch\<lparr>recvq := q\<rparr>) s1)"
            by (auto simp: unf)
          ultimately show ?thesis using c1 inv room buffered nc
            by (auto simp: s0_def chan_inv_def)
        next
          case (Some w)
          with q Inr have rq: "recvq (chans s c) \<noteq> []" by auto
          with inv have e: "dataq (chans s c) = []" by (auto simp: chan_inv_def)
          obtain r' s3 where
            k: "recv_wakeup (release c (chan_upd c (\<lambda>ch. ch\<lparr>dataq := []\<rparr>)
                                     (chan_upd c (\<lambda>ch. ch\<lparr>recvq := q\<rparr>) s1)))
                                  w (Some x) True = (r', s3)"
            using prod.exhaust by blast
          note c3 = recv_wakeup_chans [OF k]
          from t nc buffered room d Inr Some e dq k have "s' = s3"
            by (auto simp: unf split: sum.splits)
          moreover have "chan_inv ((chans s c)\<lparr>recvq := q\<rparr>)" using inv rq by (simp add: chan_inv_recvq)
          then have "chan_inv ((chans s c)\<lparr>dataq := dataq (chans s c) @ [x], recvq := q, dataq := []\<rparr>)"
            using e by (simp add: chan_inv_def)
          ultimately show ?thesis using c3 c1 by (simp add: s0_def)
        qed
      qed
    qed
  qed
qed

lemma tryrecv_inv:
  assumes mu: "ch_mu (chans s c)" and inv: "chan_inv (chans s c)" and t: "tryrecv s c = (r, s')"
  shows "(\<forall>c'. c' \<noteq> c \<longrightarrow> chans s' c' = chans s c')
       \<and> (\<not> ch_mu (chans s' c) \<longrightarrow> chan_inv (chans s' c))"
proof (cases "dataq (chans s c)")
  case Nil
  show ?thesis
  proof (cases "closed (chans s c)")
    case True
    with t inv Nil show ?thesis by (auto simp: tryrecv_def)
  next
    case nc: False
    obtain a q s1 where d: "dequeWaiter s (sendq (chans s c)) = (a, q, s1)"
      using prod_cases3 by blast
    have c1: "chans s1 = chans s" using d by (rule dequeWaiter_chans)
    have q: "sendq (chans s c) = [] \<longrightarrow> q = []" using dequeWaiter_empty [OF d] by blast
    have i2: "chan_inv ((chans s c)\<lparr>sendq := q\<rparr>)" using inv q by (rule chan_inv_sendq)
    show ?thesis
    proof (cases a)
      case (Inl e)
      with t Nil nc d have "s' = chan_upd c (\<lambda>ch. ch\<lparr>sendq := q\<rparr>) s1"
        by (auto simp: tryrecv_def)
      with c1 mu show ?thesis by simp
    next
      case (Inr opt)
      show ?thesis
      proof (cases opt)
        case None
        with t Nil nc d Inr have "s' = chan_upd c (\<lambda>ch. ch\<lparr>sendq := q\<rparr>) s1"
          by (auto simp: tryrecv_def)
        with c1 mu show ?thesis by simp
      next
        case (Some w)
        show ?thesis
        proof (cases "cls (waiters s1 w)")
          case RecvWaiting
          with t Nil nc d Inr Some have "s' = release c (chan_upd c (\<lambda>ch. ch\<lparr>sendq := q\<rparr>) s1)"
            by (auto simp: tryrecv_def)
          with c1 i2 show ?thesis by simp
        next
          case (SendWaiting y)
          obtain r' s3 where
            k: "send_wakeup (release c (chan_upd c (\<lambda>ch. ch\<lparr>sendq := q\<rparr>) s1)) w True = (r', s3)"
            using prod.exhaust by blast
          note c3 = send_wakeup_chans [OF k]
          from t Nil nc d Inr Some SendWaiting k have "s' = s3"
            by (auto simp: tryrecv_def split: sum.splits)
          with c3 c1 i2 show ?thesis by simp
        qed
      qed
    qed
  qed
next
  case (Cons rx rest)
  define s0 where "s0 = chan_upd c (\<lambda>ch. ch\<lparr>dataq := rest\<rparr>) s"
  obtain a q s1 where d: "dequeWaiter s0 (sendq (chans s c)) = (a, q, s1)"
    using prod_cases3 by blast
  have c1: "chans s1 = chans s0" using d by (rule dequeWaiter_chans)
  have q: "sendq (chans s c) = [] \<longrightarrow> q = [] \<and> a = Inr None"
    using dequeWaiter_empty [OF d] by simp
  note unf = tryrecv_def s0_def [symmetric] Let_def
  show ?thesis
  proof (cases a)
    case (Inl e)
    with t Cons d have "s' = chan_upd c (\<lambda>ch. ch\<lparr>sendq := q\<rparr>) s1"
      by (auto simp: unf)
    with c1 mu show ?thesis by (simp add: s0_def)
  next
    case (Inr opt)
    show ?thesis
    proof (cases opt)
      case None
      with d Inr have "q = []" using dequeWaiter_None by blast
      moreover from t Cons d Inr None
      have "s' = release c (chan_upd c (\<lambda>ch. ch\<lparr>sendq := q\<rparr>) s1)"
        by (auto simp: unf)
      ultimately show ?thesis using c1 inv Cons
        by (auto simp: s0_def chan_inv_def)
    next
      case (Some w)
      with q Inr have sq: "sendq (chans s c) \<noteq> []" by auto
      show ?thesis
      proof (cases "cls (waiters s1 w)")
        case RecvWaiting
        with t Cons d Inr Some have "s' = chan_upd c (\<lambda>ch. ch\<lparr>sendq := q\<rparr>) s1"
          by (auto simp: unf)
        with c1 mu show ?thesis by (simp add: s0_def)
      next
        case (SendWaiting y)
        obtain r' s3 where
          k: "send_wakeup (release c (chan_upd c (\<lambda>ch. ch\<lparr>dataq := dataq ch @ [y]\<rparr>)
                             (chan_upd c (\<lambda>ch. ch\<lparr>sendq := q\<rparr>) s1))) w True = (r', s3)"
          using prod.exhaust by blast
        note c3 = send_wakeup_chans [OF k]
        from t Cons d Inr Some SendWaiting k have "s' = s3"
          by (auto simp: unf split: sum.splits)
        moreover have "chan_inv ((chans s c)\<lparr>sendq := q, dataq := rest @ [y]\<rparr>)"
          using inv sq Cons by (auto simp: chan_inv_def)
        ultimately show ?thesis using c3 c1 by (simp add: s0_def)
      qed
    qed
  qed
qed

lemma new_chans [simp]:
  "chans (snd (new_WaitGroup s)) = chans s"
  "chans (snd (new_SendWaiting s g c v)) = chans s"
  "chans (snd (new_RecvWaiting s g c)) = chans s"
  by (simp_all add: new_WaitGroup_def new_SendWaiting_def new_RecvWaiting_def register_def)

lemma send_inv:
  assumes "world_inv s" and "send s ch v = (r, s')"
  shows "world_inv s'"
proof (cases ch)
  case pynilchan
  with assms show ?thesis by (simp add: send_def blockforever_def)
next
  case (Chan c)
  show ?thesis
  proof (cases "ch_mu (chans s c)")
    case True
    with assms Chan show ?thesis by (simp add: send_def)
  next
    case False
    obtain a s1 where t: "trysend (acquire c s) c v = (a, s1)"
      by (cases "trysend (acquire c s) c v") auto
    have i: "chan_inv (chans (acquire c s) c)" using assms(1) False by (simp add: world_inv_def)
    from trysend_inv [OF _ i t] have
      fr: "\<forall>c'. c' \<noteq> c \<longrightarrow> chans s1 c' = chans s c'"
      and iv: "\<not> ch_mu (chans s1 c) \<longrightarrow> chan_inv (chans s1 c)"
      by simp_all
    show ?thesis
    proof (cases "a = Inr False")
      case False
      with assms(2) Chan \<open>\<not> ch_mu (chans s c)\<close> t have "s' = s1"
        by (auto simp: send_def split: sum.splits bool.splits)
      with fr iv assms(1) show ?thesis using world_inv_upd by blast
    next
      case True
      note f = trysend_False [OF t [unfolded True]]
      obtain g s2 where g: "new_WaitGroup s1 = (g, s2)" by (cases "new_WaitGroup s1") auto
      obtain me s3 where me: "new_SendWaiting s2 g c v = (me, s3)"
        by (cases "new_SendWaiting s2 g c v") auto
      have c3: "chans s3 = chans s1"
        using new_chans(1) [of s1] new_chans(2) [of s2 g c v] g me by simp
      from assms(2) Chan \<open>\<not> ch_mu (chans s c)\<close> t True g me
      have s': "s' = release c (chan_upd c (\<lambda>ch. ch\<lparr>sendq := sendq ch @ [me]\<rparr>) s3)"
        by (simp add: send_def)
      have "chan_inv (chans s' c)"
        using f i by (auto simp: s' c3 chan_inv_def split: if_splits)
      moreover have "\<forall>c'. c' \<noteq> c \<longrightarrow> chans s' c' = chans s c'"
        using fr by (simp add: s' c3)
      ultimately show ?thesis using assms(1) world_inv_upd by blast
    qed
  qed
qed

lemma recv_ok_inv:
  assumes "world_inv s" and "recv_ok s ch = (r, s')"
  shows "world_inv s'"
proof (cases ch)
  case pynilchan
  with assms show ?thesis by (simp add: recv_ok_def blockforever_def)
next
  case (Chan c)
  show ?thesis
  proof (cases "ch_mu (chans s c)")
    case True
    with assms Chan show ?thesis by (simp add: recv_ok_def)
  next
    case False
    obtain a s1 where t: "tryrecv (acquire c s) c = (a, s1)"
      by (cases "tryrecv (acquire c s) c") auto
    have i: "chan_inv (chans (acquire c s) c)" using assms(1) False by (simp add: world_inv_def)
    from tryrecv_inv [OF _ i t] have
      fr: "\<forall>c'. c' \<noteq> c \<longrightarrow> chans s1 c' = chans s c'"
      and iv: "\<not> ch_mu (chans s1 c) \<longrightarrow> chan_inv (chans s1 c)"
      by simp_all
    show ?thesis
    proof (cases "\<exists>rxok. a = Inr (rxok, False)")
      case False
      with assms(2) Chan \<open>\<not> ch_mu (chans s c)\<close> t have "s' = s1"
        by (auto simp: recv_ok_def split: sum.splits bool.splits prod.splits)
      with fr iv assms(1) show ?thesis using world_inv_upd by blast
    next
      case True
      then obtain rxok where a: "a = Inr (rxok, False)" by blast
      note f = tryrecv_False [OF t [unfolded a]]
      obtain g s2 where g: "new_WaitGroup s1 = (g, s2)" by (cases "new_WaitGroup s1") auto
      obtain me s3 where me: "new_RecvWaiting s2 g c = (me, s3)"
        by (cases "new_RecvWaiting s2 g c") auto
      have c3: "chans s3 = chans s1"
        using new_chans(1) [of s1] new_chans(3) [of s2 g c] g me by simp
      from assms(2) Chan \<open>\<not> ch_mu (chans s c)\<close> t a g me
      have s': "s' = release c (chan_upd c (\<lambda>ch. ch\<lparr>recvq := recvq ch @ [me]\<rparr>) s3)"
        by (simp add: recv_ok_def)
      have "chan_inv (chans s' c)"
        using f i by (auto simp: s' c3 chan_inv_def split: if_splits)
      moreover have "\<forall>c'. c' \<noteq> c \<longrightarrow> chans s' c' = chans s c'"
        using fr by (simp add: s' c3)
      ultimately show ?thesis using assms(1) world_inv_upd by blast
    qed
  qed
qed

lemma recv_inv: "world_inv s \<Longrightarrow> recv s ch = (r, s') \<Longrightarrow> world_inv s'"
  by (auto simp: recv_def split: prod.splits sum.splits dest: recv_ok_inv)

lemma send_wait_chans: "send_wait s g me = (r, s') \<Longrightarrow> chans s' = chans s"
  by (auto simp: send_wait_def Let_def split: if_splits option.splits bool.splits)

lemma recv_wait_chans: "recv_wait s g me = (r, s') \<Longrightarrow> chans s' = chans s"
  by (auto simp: recv_wait_def Let_def split: if_splits option.splits)

lemma close_drain_chans:
  "close_drain s q acc = (r, q', s') \<Longrightarrow> chans s' = chans s \<and> (\<forall>ws. r = Inr ws \<longrightarrow> q' = [])"
proof (induction s q acc rule: close_drain.induct)
  case (1 s queue acc)
  obtain a q1 s1 where d: "dequeWaiter s queue = (a, q1, s1)"
    using prod_cases3 by blast
  note c1 = dequeWaiter_chans [OF d]
  show ?case
  proof (cases a)
    case (Inl e)
    with 1(2) d c1 show ?thesis by (auto simp: close_drain.simps [of s queue])
  next
    case (Inr opt)
    show ?thesis
    proof (cases opt)
      case None
      with Inr d have "q1 = []" using dequeWaiter_None by blast
      with 1(2) d c1 Inr None show ?thesis by (auto simp: close_drain.simps [of s queue])
    next
      case (Some w)
      with 1(2) d Inr have "close_drain s1 q1 (acc @ [w]) = (r, q', s')"
        by (simp add: close_drain.simps [of s queue])
      from 1(1) [OF d [symmetric] Inr Some refl this] c1 show ?thesis by simp
    qed
  qed
qed

lemma wakeup_recvv_chans: "wakeup_recvv s ws = (r, s') \<Longrightarrow> chans s' = chans s"
proof (induction ws arbitrary: s)
  case Nil
  then show ?case by simp
next
  case (Cons w ws)
  obtain a s1 where k: "recv_wakeup s w None False = (a, s1)"
    by (cases "recv_wakeup s w None False") auto
  note c1 = recv_wakeup_chans [OF k]
  show ?case
  proof (cases a)
    case (Inl e)
    with Cons.prems k c1 show ?thesis by auto
  next
    case (Inr u)
    with Cons.prems k have "wakeup_recvv s1 ws = (r, s')" by simp
    from Cons.IH [OF this] c1 show ?thesis by simp
  qed
qed

lemma wakeup_sendv_chans: "wakeup_sendv s ws = (r, s') \<Longrightarrow> chans s' = chans s"
proof (induction ws arbitrary: s)
  case Nil
  then show ?case by simp
next
  case (Cons w ws)
  obtain a s1 where k: "send_wakeup s w False = (a, s1)"
    by (cases "send_wakeup s w False") auto
  note c1 = send_wakeup_chans [OF k]
  show ?case
  proof (cases a)
    case (Inl e)
    with Cons.prems k c1 show ?thesis by auto
  next
    case (Inr u)
    with Cons.prems k have "wakeup_sendv s1 ws = (r, s')" by simp
    from Cons.IH [OF this] c1 show ?thesis by simp
  qed
qed

lemma trysend_False_inv:
  assumes "trysend s c x = (Inr False, s1)" and "chan_inv (chans s c)"
  shows "chan_inv (chans s1 c) \<and> chan_inv ((chans s1 c)\<lparr>sendq := sendq (chans s1 c) @ [me]\<rparr>)
       \<and> ch_mu (chans s1 c) = ch_mu (chans s c) \<and> (\<forall>c'. c' \<noteq> c \<longrightarrow> chans s1 c' = chans s c')"
  using trysend_False [OF assms(1)] assms(2)
  by (auto simp: chan_inv_def split: if_splits)

lemma tryrecv_False_inv:
  assumes "tryrecv s c = (Inr (rxok, False), s1)" and "chan_inv (chans s c)"
  shows "chan_inv (chans s1 c) \<and> chan_inv ((chans s1 c)\<lparr>recvq := recvq (chans s1 c) @ [me]\<rparr>)
       \<and> ch_mu (chans s1 c) = ch_mu (chans s c) \<and> (\<forall>c'. c' \<noteq> c \<longrightarrow> chans s1 c' = chans s c')"
  using tryrecv_False [OF assms(1)] assms(2)
  by (auto simp: chan_inv_def split: if_splits)

lemma close_inv:
  assumes "world_inv s" and "close s ch = (r, s')"
  shows "world_inv s'"
proof (cases ch)
  case pynilchan
  with assms show ?thesis by (simp add: close_def)
next
  case (Chan c)
  show ?thesis
  proof (cases "ch_mu (chans s c) \<or> closed (chans s c)")
    case True
    with assms Chan show ?thesis by (auto simp: close_def split: if_splits)
  next
    case False
    then have m: "\<not> ch_mu (chans s c)" and o: "\<not> closed (chans s c)" by simp_all
    have i: "chan_inv (chans s c)" using assms(1) m by (simp add: world_inv_def)
    define s0 where "s0 = chan_upd c (\<lambda>ch. ch\<lparr>closed := True\<rparr>) (acquire c s)"
    obtain r1 q1 s1 where d1: "close_drain s0 (recvq (chans s0 c)) [] = (r1, q1, s1)"
      using prod_cases3 by blast
    define s2 where "s2 = chan_upd c (\<lambda>ch. ch\<lparr>recvq := q1\<rparr>) s1"
    obtain r2 q2 s3 where d2: "close_drain s2 (sendq (chans s1 c)) [] = (r2, q2, s3)"
      using prod_cases3 by blast
    define s4 where "s4 = chan_upd c (\<lambda>ch. ch\<lparr>sendq := q2\<rparr>) s3"
    note c1 = close_drain_chans [OF d1] and c3 = close_drain_chans [OF d2]
    have fr4: "\<forall>c'. c' \<noteq> c \<longrightarrow> chans s4 c' = chans s c'"
      and fr2: "\<forall>c'. c' \<noteq> c \<longrightarrow> chans s2 c' = chans s c'"
      and h2: "ch_mu (chans s2 c)" and h4: "ch_mu (chans s4 c)"
      using c1 c3 by (simp_all add: s4_def s2_def s0_def)
    note unf = close_def s0_def [symmetric] Let_def s2_def [symmetric] s4_def [symmetric]
    show ?thesis
    proof (cases r1)
      case (Inl e)
      with assms(2) Chan m o d1 have "s' = s2" by (auto simp: unf)
      with fr2 h2 assms(1) show ?thesis using world_inv_upd by blast
    next
      case r1: (Inr recvv)
      show ?thesis
      proof (cases r2)
        case (Inl e)
        with assms(2) Chan m o d1 r1 d2 have "s' = s4" by (auto simp: unf)
        with fr4 h4 assms(1) show ?thesis using world_inv_upd by blast
      next
        case r2: (Inr sendv)
        from c1 r1 have q1: "q1 = []" by simp
        from c3 r2 have q2: "q2 = []" by simp
        obtain r3 s6 where k1: "wakeup_recvv (release c s4) recvv = (r3, s6)"
          by (cases "wakeup_recvv (release c s4) recvv") auto
        obtain r4 s7 where k2: "wakeup_sendv s6 sendv = (r4, s7)"
          by (cases "wakeup_sendv s6 sendv") auto
        note c6 = wakeup_recvv_chans [OF k1] and c7 = wakeup_sendv_chans [OF k2]
        from assms(2) Chan m o d1 r1 d2 r2 k1 k2 have "s' = s6 \<or> s' = s7"
          by (auto simp: unf split: sum.splits)
        then have c': "chans s' = chans (release c s4)" using c6 c7 by auto
        have "chan_inv (chans s' c)"
          using i c1 c3 by (simp add: c' s4_def q2 s2_def q1 s0_def chan_inv_def)
        moreover have "\<forall>c'. c' \<noteq> c \<longrightarrow> chans s' c' = chans s c'"
          using fr4 by (simp add: c')
        ultimately show ?thesis using assms(1) world_inv_upd by blast
      qed
    qed
  qed
qed

lemma world_inv_chan:
  assumes "world_inv s" and "\<forall>c'. c' \<noteq> c \<longrightarrow> chans s' c' = chans s c'"
    and "chan_inv (chans s' c)"
  shows "world_inv s'"
  using assms world_inv_upd by blast

lemma trysend_step_inv:
  assumes w: "world_inv s" and m: "\<not> ch_mu (chans s c)" and ct: "chans t = chans (acquire c s)"
    and t: "trysend t c tx = (a, s1)"
  shows "world_inv s1" and "\<forall>c'. c' \<noteq> c \<longrightarrow> chans s1 c' = chans s c'"
    and "a = Inr False \<Longrightarrow> chan_inv (chans s1 c)"
    and "a = Inr False \<Longrightarrow> chan_inv ((chans s1 c)\<lparr>sendq := sendq (chans s1 c) @ [me]\<rparr>)"
proof -
  have i: "chan_inv (chans t c)" using w m by (simp add: ct world_inv_def)
  have h: "ch_mu (chans t c)" by (simp add: ct)
  from trysend_inv [OF h i t] have
    fr: "\<forall>c'. c' \<noteq> c \<longrightarrow> chans s1 c' = chans s c'"
    and iv: "\<not> ch_mu (chans s1 c) \<longrightarrow> chan_inv (chans s1 c)"
    by (simp_all add: ct)
  show "world_inv s1" using w fr iv by (rule world_inv_upd)
  show "\<forall>c'. c' \<noteq> c \<longrightarrow> chans s1 c' = chans s c'" by (rule fr)
  show "chan_inv (chans s1 c)" if "a = Inr False"
    using trysend_False_inv [OF t [unfolded that] i] by simp
  show "chan_inv ((chans s1 c)\<lparr>sendq := sendq (chans s1 c) @ [me]\<rparr>)" if "a = Inr False"
    using trysend_False_inv [OF t [unfolded that] i] by simp
qed

lemma tryrecv_step_inv:
  assumes w: "world_inv s" and m: "\<not> ch_mu (chans s c)" and ct: "chans t = chans (acquire c s)"
    and t: "tryrecv t c = (a, s1)"
  shows "world_inv s1" and "\<forall>c'. c' \<noteq> c \<longrightarrow> chans s1 c' = chans s c'"
    and "a = Inr (rxok, False) \<Longrightarrow> chan_inv (chans s1 c)"
    and "a = Inr (rxok, False) \<Longrightarrow> chan_inv ((chans s1 c)\<lparr>recvq := recvq (chans s1 c) @ [me]\<rparr>)"
proof -
  have i: "chan_inv (chans t c)" using w m by (simp add: ct world_inv_def)
  have h: "ch_mu (chans t c)" by (simp add: ct)
  from tryrecv_inv [OF h i t] have
    fr: "\<forall>c'. c' \<noteq> c \<longrightarrow> chans s1 c' = chans s c'"
    and iv: "\<not> ch_mu (chans s1 c) \<longrightarrow> chan_inv (chans s1 c)"
    by (simp_all add: ct)
  show "world_inv s1" using w fr iv by (rule world_inv_upd)
  show "\<forall>c'. c' \<noteq> c \<longrightarrow> chans s1 c' = chans s c'" by (rule fr)
  show "chan_inv (chans s1 c)" if "a = Inr (rxok, False)"
    using tryrecv_False_inv [OF t [unfolded that] i] by simp
  show "chan_inv ((chans s1 c)\<lparr>recvq := recvq (chans s1 c) @ [me]\<rparr>)" if "a = Inr (rxok, False)"
    using tryrecv_False_inv [OF t [unfolded that] i] by simp
qed

lemma release_inv:
  assumes "world_inv s" and "\<forall>c'. c' \<noteq> c \<longrightarrow> chans s1 c' = chans s c'" and "chan_inv (chans s1 c)"
  shows "world_inv (release c s1)"
proof (rule world_inv_chan [OF assms(1)])
  show "\<forall>c'. c' \<noteq> c \<longrightarrow> chans (release c s1) c' = chans s c'" using assms(2) by simp
  show "chan_inv (chans (release c s1) c)" using assms(3) by simp
qed

lemma poll_inv: "world_inv s \<Longrightarrow> world_inv (snd (poll s xs recvv sendv nd))"
proof (induction s xs recvv sendv nd rule: poll.induct)
  case (6 s n c tx rest recvv sendv ndefault)
  show ?case
  proof (cases "ch_mu (chans s c)")
    case True
    with 6(2) show ?thesis by simp
  next
    case False
    obtain a s1 where t: "trysend (acquire c s) c tx = (a, s1)"
      by (cases "trysend (acquire c s) c tx") auto
    note st = trysend_step_inv [OF 6(2) False refl t]
    show ?thesis
    proof (cases a)
      case (Inl e)
      with st(1) t False show ?thesis by simp
    next
      case (Inr b)
      show ?thesis
      proof (cases b)
        case True
        with st(1) t False Inr show ?thesis by simp
      next
        case b: False
        with Inr have a: "a = Inr False" by simp
        have "world_inv (release c s1)"
          using 6(2) st(2) st(3) [OF a] by (rule release_inv)
        then have "world_inv (snd (poll (release c s1) rest recvv (sendv @ [(n, c, tx)]) ndefault))"
          using 6(1) [OF False t [symmetric] a] by simp
        with t a False show ?thesis by simp
      qed
    qed
  qed
next
  case (10 s n c commaok rest recvv sendv ndefault)
  show ?case
  proof (cases "ch_mu (chans s c)")
    case True
    with 10(2) show ?thesis by simp
  next
    case False
    obtain a s1 where t: "tryrecv (acquire c s) c = (a, s1)"
      by (cases "tryrecv (acquire c s) c") auto
    note st = tryrecv_step_inv [OF 10(2) False refl t]
    show ?thesis
    proof (cases a)
      case (Inl e)
      with st(1) t False show ?thesis by simp
    next
      case (Inr p)
      obtain rxok b where p: "p = (rxok, b)" by (cases p) auto
      show ?thesis
      proof (cases b)
        case True
        with st(1) t False Inr p show ?thesis by simp
      next
        case b: False
        with Inr p have a: "a = Inr (rxok, False)" by simp
        have "world_inv (release c s1)"
          using 10(2) st(2) st(3) [OF a] by (rule release_inv)
        then have "world_inv (snd (poll (release c s1) rest (recvv @ [(n, c, commaok)]) sendv ndefault))"
          using 10(1) [OF False t [symmetric] a refl] by simp
        with t a False show ?thesis by simp
      qed
    qed
  qed
qed simp_all

lemma selected_chans: "chans (snd (selected s g held)) = chans s"
  by (simp add: selected_def Let_def split: option.splits winner.splits wclass.splits bool.splits)

lemma leave_with_chans: "chans (snd (leave_with g rs)) = chans (snd rs)"
  by (simp add: leave_with_def unlock_g_def split: prod.splits sum.splits)

lemma world_inv_snd: "world_inv (snd rs) \<Longrightarrow> chans (snd rs') = chans (snd rs) \<Longrightarrow> world_inv (snd rs')"
  by (simp add: world_inv_def)

lemma world_inv_acquire: "world_inv s \<Longrightarrow> world_inv (acquire c s)"
  by (simp add: world_inv_def)

lemma release_acquire_chans: "\<not> ch_mu (chans s c) \<Longrightarrow> chans (release c (acquire c s)) = chans s"
  by (simp add: release_acquire)

lemma subscribe_send_inv: "world_inv s \<Longrightarrow> world_inv (snd (subscribe_send s g sendv))"
proof (induction sendv arbitrary: s)
  case Nil
  then show ?case by simp
next
  case (Cons x rest)
  obtain n c tx where x: "x = (n, c, tx)" by (cases x) auto
  show ?case
  proof (cases "ch_mu (chans s c)")
    case True
    with Cons.prems x show ?thesis by simp
  next
    case m: False
    show ?thesis
    proof (cases "wg_mu (groups s g)")
      case True
      with Cons.prems x m show ?thesis by (simp add: world_inv_acquire)
    next
      case gm: False
      define s1 where "s1 = group_upd g (\<lambda>gr. gr\<lparr>wg_mu := True\<rparr>) (acquire c s)"
      have c1: "chans s1 = chans (acquire c s)" by (simp add: s1_def)
      show ?thesis
      proof (cases "which (groups s1 g) \<noteq> None")
        case True
        obtain r2 s2 where sel: "selected (release c s1) g True = (r2, s2)"
          by (cases "selected (release c s1) g True") auto
        have "chans s2 = chans (release c s1)"
          using selected_chans [of "release c s1" g True] sel by simp
        moreover have "chans (release c s1) = chans s"
          using m by (simp add: s1_def fun_eq_iff)
        ultimately have c2: "chans s2 = chans s" by simp
        have "chans (snd (subscribe_send s g (x # rest))) = chans s2"
          using m gm True x sel
          by (cases r2) (simp_all add: s1_def [symmetric] Let_def leave_with_chans)
        with Cons.prems c2 show ?thesis by (simp add: world_inv_def)
      next
        case False
        obtain a s2 where t: "trysend s1 c tx = (a, s2)"
          by (cases "trysend s1 c tx") auto
        note st = trysend_step_inv [OF Cons.prems m c1 t]
        show ?thesis
        proof (cases a)
          case (Inl e)
          have "chans (snd (subscribe_send s g (x # rest))) = chans s2"
            using m gm False x t Inl
            by (simp add: s1_def [symmetric] Let_def leave_with_chans)
          with st(1) show ?thesis by (simp add: world_inv_def)
        next
          case (Inr b)
          show ?thesis
          proof (cases b)
            case True
            have "chans (snd (subscribe_send s g (x # rest))) = chans s2"
              using m gm False x t Inr True
              by (simp add: s1_def [symmetric] Let_def leave_with_chans)
            with st(1) show ?thesis by (simp add: world_inv_def)
          next
            case b: False
            with Inr have a: "a = Inr False" by simp
            obtain w s3 where nw: "new_SendWaiting s2 g c tx = (w, s3)"
              by (cases "new_SendWaiting s2 g c tx") auto
            have c3: "chans s3 = chans s2" using new_chans(2) [of s2 g c tx] nw by simp
            define s4 where "s4 = release c (unlock_g g
                        (chan_upd c (\<lambda>ch. ch\<lparr>sendq := sendq ch @ [w]\<rparr>)
                           (waiter_upd w (\<lambda>r. r\<lparr>sel_n := Some n\<rparr>) s3)))"
            have "world_inv s4"
            proof (rule world_inv_chan [OF Cons.prems])
              show "\<forall>c'. c' \<noteq> c \<longrightarrow> chans s4 c' = chans s c'"
                using st(2) by (simp add: s4_def unlock_g_def c3)
              show "chan_inv (chans s4 c)"
                using st(4) [OF a, of w] by (simp add: s4_def unlock_g_def c3)
            qed
            then have "world_inv (snd (subscribe_send s4 g rest))" by (rule Cons.IH)
            moreover have "subscribe_send s g (x # rest) = subscribe_send s4 g rest"
              using m gm False x t a nw
              by (simp add: s1_def [symmetric] Let_def s4_def)
            ultimately show ?thesis by simp
          qed
        qed
      qed
    qed
  qed
qed

lemma subscribe_recv_inv: "world_inv s \<Longrightarrow> world_inv (snd (subscribe_recv s g recvv))"
proof (induction recvv arbitrary: s)
  case Nil
  then show ?case by simp
next
  case (Cons x rest)
  obtain n c commaok where x: "x = (n, c, commaok)" by (cases x) auto
  show ?case
  proof (cases "ch_mu (chans s c)")
    case True
    with Cons.prems x show ?thesis by simp
  next
    case m: False
    show ?thesis
    proof (cases "wg_mu (groups s g)")
      case True
      with Cons.prems x m show ?thesis by (simp add: world_inv_acquire)
    next
      case gm: False
      define s1 where "s1 = group_upd g (\<lambda>gr. gr\<lparr>wg_mu := True\<rparr>) (acquire c s)"
      have c1: "chans s1 = chans (acquire c s)" by (simp add: s1_def)
      show ?thesis
      proof (cases "which (groups s1 g) \<noteq> None")
        case True
        obtain r2 s2 where sel: "selected (release c s1) g True = (r2, s2)"
          by (cases "selected (release c s1) g True") auto
        have "chans s2 = chans (release c s1)"
          using selected_chans [of "release c s1" g True] sel by simp
        moreover have "chans (release c s1) = chans s"
          using m by (simp add: s1_def fun_eq_iff)
        ultimately have c2: "chans s2 = chans s" by simp
        have "chans (snd (subscribe_recv s g (x # rest))) = chans s2"
          using m gm True x sel
          by (cases r2) (simp_all add: s1_def [symmetric] Let_def leave_with_chans)
        with Cons.prems c2 show ?thesis by (simp add: world_inv_def)
      next
        case False
        obtain a s2 where t: "tryrecv s1 c = (a, s2)"
          by (cases "tryrecv s1 c") auto
        note st = tryrecv_step_inv [OF Cons.prems m c1 t]
        show ?thesis
        proof (cases a)
          case (Inl e)
          have "chans (snd (subscribe_recv s g (x # rest))) = chans s2"
            using m gm False x t Inl
            by (simp add: s1_def [symmetric] Let_def leave_with_chans)
          with st(1) show ?thesis by (simp add: world_inv_def)
        next
          case (Inr p)
          obtain rxok b where p: "p = (rxok, b)" by (cases p) auto
          show ?thesis
          proof (cases b)
            case True
            have "chans (snd (subscribe_recv s g (x # rest))) = chans s2"
              using m gm False x t Inr p True
              by (simp add: s1_def [symmetric] Let_def leave_with_chans)
            with st(1) show ?thesis by (simp add: world_inv_def)
          next
            case b: False
            with Inr p have a: "a = Inr (rxok, False)" by simp
            obtain w s3 where nw: "new_RecvWaiting s2 g c = (w, s3)"
              by (cases "new_RecvWaiting s2 g c") auto
            have c3: "chans s3 = chans s2" using new_chans(3) [of s2 g c] nw by simp
            define s4 where "s4 = release c (unlock_g g
                        (chan_upd c (\<lambda>ch. ch\<lparr>recvq := recvq ch @ [w]\<rparr>)
                           (waiter_upd w (\<lambda>r. r\<lparr>sel_n := Some n, sel_commaok := Some commaok\<rparr>) s3)))"
            have "world_inv s4"
            proof (rule world_inv_chan [OF Cons.prems])
              show "\<forall>c'. c' \<noteq> c \<longrightarrow> chans s4 c' = chans s c'"
                using st(2) by (simp add: s4_def unlock_g_def c3)
              show "chan_inv (chans s4 c)"
                using st(4) [OF a, of w] by (simp add: s4_def unlock_g_def c3)
            qed
            then have "world_inv (snd (subscribe_recv s4 g rest))" by (rule Cons.IH)
            moreover have "subscribe_recv s g (x # rest) = subscribe_recv s4 g rest"
              using m gm False x t a nw
              by (simp add: s1_def [symmetric] Let_def s4_def)
            ultimately show ?thesis by simp
          qed
        qed
      qed
    qed
  qed
qed

lemma dequeAll_loop_inv: "world_inv s \<Longrightarrow> world_inv (snd (dequeAll_loop s ws))"
proof (induction ws arbitrary: s)
  case Nil
  then show ?case by simp
next
  case (Cons w ws)
  let ?c = "chan (waiters s w)"
  show ?case
  proof (cases "ch_mu (chans s ?c)")
    case True
    with Cons.prems show ?thesis by simp
  next
    case False
    let ?s1 = "chan_upd ?c
             (\<lambda>ch. case cls (waiters s w) of
                      SendWaiting _ \<Rightarrow> ch\<lparr>sendq := remove1 w (sendq ch)\<rparr>
                    | RecvWaiting \<Rightarrow> ch\<lparr>recvq := remove1 w (recvq ch)\<rparr>) s"
    have i: "chan_inv (chans s ?c)" using Cons.prems False by (simp add: world_inv_def)
    have "world_inv ?s1"
    proof (rule world_inv_chan [OF Cons.prems, of ?c])
      show "\<forall>c'. c' \<noteq> ?c \<longrightarrow> chans ?s1 c' = chans s c'" by simp
      show "chan_inv (chans ?s1 ?c)"
        using i by (cases "cls (waiters s w)") (simp_all add: chan_inv_recvq chan_inv_sendq)
    qed
    then have "world_inv (snd (dequeAll_loop ?s1 ws))" by (rule Cons.IH)
    with False show ?thesis by (simp add: Let_def)
  qed
qed

lemma finally_dequeAll_inv:
  "world_inv (snd rs) \<Longrightarrow> world_inv (snd (finally_dequeAll g rs))"
proof -
  assume w: "world_inv (snd rs)"
  obtain r s where rs: "rs = (r, s)" by (cases rs) auto
  obtain r' s' where d: "dequeAll s g = (r', s')" by (cases "dequeAll s g") auto
  have "world_inv s'"
    using dequeAll_loop_inv [of s "waitv (groups s g)"] w rs d by (simp add: dequeAll_def)
  with w rs d show ?thesis
    by (cases r; cases r') (simp_all add: finally_dequeAll_def)
qed

lemma selected_inv: "world_inv s \<Longrightarrow> world_inv (snd (selected s g held))"
  using selected_chans [of s g held] by (simp add: world_inv_def)

lemma second_pass_inv: "world_inv s \<Longrightarrow> world_inv (snd (second_pass s g sendv recvv))"
proof -
  assume w: "world_inv s"
  obtain r1 s1 where a: "subscribe_send s g sendv = (r1, s1)"
    by (cases "subscribe_send s g sendv") auto
  have w1: "world_inv s1" using subscribe_send_inv [OF w, of g sendv] a by simp
  obtain r2 s2 where b: "subscribe_recv s1 g recvv = (r2, s2)"
    by (cases "subscribe_recv s1 g recvv") auto
  have w2: "world_inv s2" using subscribe_recv_inv [OF w1, of g recvv] b by simp
  have w3: "world_inv (snd (selected s2 g False))" using w2 by (rule selected_inv)
  show ?thesis
    using a b w1 w2 w3
    by (simp add: second_pass_def split: sum.splits option.splits)
qed

lemma pyselect_inv: "world_inv s \<Longrightarrow> world_inv (snd (pyselect s shuffle casev))"
proof -
  assume w: "world_inv s"
  obtain r1 s1 where a: "poll s (shuffle (enumerate 0 casev)) [] [] None = (r1, s1)"
    by (cases "poll s (shuffle (enumerate 0 casev)) [] [] None") auto
  have w1: "world_inv s1" using poll_inv [OF w, of "shuffle (enumerate 0 casev)" "[]" "[]" None] a by simp
  show ?thesis
  proof (cases r1)
    case (Inl e)
    with a w1 show ?thesis by (simp add: pyselect_def)
  next
    case (Inr p)
    show ?thesis
    proof (cases p)
      case (Selected n rx)
      with a w1 Inr show ?thesis by (simp add: pyselect_def)
    next
      case (Pending recvv sendv ndefault)
      show ?thesis
      proof (cases "ndefault \<noteq> None \<or> length recvv + length sendv = 0")
        case True
        with a w1 Inr Pending show ?thesis
          by (auto simp: pyselect_def blockforever_def split: option.splits)
      next
        case False
        obtain g s2 where g: "new_WaitGroup s1 = (g, s2)" by (cases "new_WaitGroup s1") auto
        have "world_inv s2" using w1 new_chans(1) [of s1] g by (simp add: world_inv_def)
        then have "world_inv (snd (finally_dequeAll g (second_pass s2 g sendv recvv)))"
          by (intro finally_dequeAll_inv second_pass_inv)
        moreover have "pyselect s shuffle casev = finally_dequeAll g (second_pass s2 g sendv recvv)"
          using a Inr Pending False g by (auto simp: pyselect_def)
        ultimately show ?thesis by simp
      qed
    qed
  qed
qed

lemma leave_with_inv: "world_inv (snd rs) \<Longrightarrow> world_inv (snd (leave_with g rs))"
  by (simp add: world_inv_def leave_with_chans)

lemma pyselect_wait_inv: "world_inv s \<Longrightarrow> world_inv (snd (pyselect_wait s g held))"
proof -
  assume w: "world_inv s"
  have "world_inv (snd (selected s g b))" for b using w by (rule selected_inv)
  then have "world_inv (snd (if held then leave_with g (selected s g True) else selected s g False))"
    by (cases held) (simp_all add: leave_with_inv)
  then show ?thesis unfolding pyselect_wait_def by (rule finally_dequeAll_inv)
qed

lemma send_wait_inv: "world_inv s \<Longrightarrow> world_inv (snd (send_wait s g me))"
proof -
  assume w: "world_inv s"
  obtain r s' where e: "send_wait s g me = (r, s')" by (cases "send_wait s g me") auto
  from send_wait_chans [OF e] w e show ?thesis by (simp add: world_inv_def)
qed

lemma recv_wait_inv: "world_inv s \<Longrightarrow> world_inv (snd (recv_wait s g me))"
proof -
  assume w: "world_inv s"
  obtain r s' where e: "recv_wait s g me = (r, s')" by (cases "recv_wait s g me") auto
  from recv_wait_chans [OF e] w e show ?thesis by (simp add: world_inv_def)
qed

lemma new_pychan_inv: "world_inv s \<Longrightarrow> world_inv (snd (new_pychan s sz))"
  by (simp add: world_inv_def new_pychan_def pychan_init_def chan_inv_def)

lemma step_inv: "world_inv s \<Longrightarrow> world_inv (step s opn)"
proof (cases opn)
  case (OpSend ch x)
  assume "world_inv s"
  then show ?thesis using send_inv [of s ch x] OpSend by (cases "send s ch x") simp
next
  case (OpRecv ch)
  assume "world_inv s"
  then show ?thesis using recv_ok_inv [of s ch] OpRecv by (cases "recv_ok s ch") simp
next
  case (OpClose ch)
  assume "world_inv s"
  then show ?thesis using close_inv [of s ch] OpClose by (cases "close s ch") simp
qed (simp_all add: new_pychan_inv send_wait_inv recv_wait_inv pyselect_inv pyselect_wait_inv)

lemma run_inv: "world_inv s \<Longrightarrow> world_inv (foldl step s ops)"
  by (induction ops arbitrary: s) (simp_all add: step_inv)

lemma world0_inv: "world_inv world0"
  by (simp add: world_inv_def world0_def pychan_init_def chan_inv_def)

text \<open>
  C5. Every step (a new channel, send, recv\_, close, pyselect, and the rest of each
  after its wait) keeps the invariant of every channel whose lock is free, and so does
  every sequence of steps. The invariant contains what the claim lists: one of
  \<open>_sendq\<close> and \<open>_recvq\<close> is empty, the buffer is no longer than the capacity, a
  channel of capacity 0 buffers nothing, and a closed channel has both queues empty. A
  channel whose lock is held is one where an operation is stuck for good; it is never
  again between two operations.
\<close>

theorem invariants_preserved:
  assumes "world_inv s"
  shows "world_inv (step s opn) \<and> world_inv (foldl step s ops)
       \<and> (\<forall>c. \<not> ch_mu (chans (step s opn) c) \<longrightarrow>
            (sendq (chans (step s opn) c) = [] \<or> recvq (chans (step s opn) c) = [])
          \<and> length (dataq (chans (step s opn) c)) \<le> cap (chans (step s opn) c)
          \<and> (cap (chans (step s opn) c) = 0 \<longrightarrow> dataq (chans (step s opn) c) = [])
          \<and> (closed (chans (step s opn) c) \<longrightarrow>
                recvq (chans (step s opn) c) = [] \<and> sendq (chans (step s opn) c) = []))"
proof -
  have a: "world_inv (step s opn)" using assms by (rule step_inv)
  have b: "world_inv (foldl step s ops)" using assms by (rule run_inv)
  from a have "\<forall>c. \<not> ch_mu (chans (step s opn) c) \<longrightarrow> chan_inv (chans (step s opn) c)"
    by (simp add: world_inv_def)
  then show ?thesis using a b unfolding chan_inv_def by blast
qed

theorem invariants_preserved_witness:
  "world_inv sync_world
   \<and> step sync_world (OpSend (Chan 0) 5) = parked_send_world
   \<and> world_inv parked_send_world
   \<and> sendq (chans parked_send_world 0) = [0] \<and> recvq (chans parked_send_world 0) = []
   \<and> world_inv (foldl step (world0 :: nat world) [OpNew 0, OpSend (Chan 0) 5, OpClose (Chan 0)])"
proof -
  have w: "world_inv (sync_world :: nat world)"
    by (simp add: world_inv_def sync_world_def new_pychan_def world0_def pychan_init_def chan_inv_def)
  have s: "step sync_world (OpSend (Chan 0) 5) = parked_send_world"
    by (simp add: parked_send_world_def)
  have w0: "world_inv (world0 :: nat world)" by (rule world0_inv)
  from invariants_preserved [OF w, of "OpSend (Chan 0) 5" "[]"]
    invariants_preserved [OF w0, of "OpNew 0" "[OpNew 0, OpSend (Chan 0) 5, OpClose (Chan 0)]"]
  show ?thesis using w s by (simp add: parked_send_world_simps pychan_init_def)
qed

subsection \<open>FIFO order and the drain of a closed channel\<close>

lemma send_buffer:
  assumes "\<not> ch_mu (chans w c)" "\<not> closed (chans w c)" "length (dataq (chans w c)) < cap (chans w c)"
    "recvq (chans w c) = []"
  shows "send w (Chan c) v = (Inr (), chan_upd c (\<lambda>ch. ch\<lparr>dataq := dataq ch @ [v]\<rparr>) w)"
proof -
  have "trysend (acquire c w) c v
        = (Inr True, chan_upd c (\<lambda>ch. ch\<lparr>dataq := dataq ch @ [v]\<rparr>) w)"
    using assms
    by (simp add: trysend_def acquire_def release_def chan_upd_def fun_eq_iff)
  with assms(1) show ?thesis by (simp add: send_def)
qed

lemma send_deliver:
  assumes "\<not> ch_mu (chans w c)" "\<not> closed (chans w c)" "0 < cap (chans w c)"
    "dataq (chans w c) = []" "recvq (chans w c) = [me]"
    "\<not> wg_mu (groups w (group (waiters w me)))" "which (groups w (group (waiters w me))) = None"
  shows "\<exists>w'. send w (Chan c) v = (Inr (), w')
           \<and> chans w' = (chans w)(c := (chans w c)\<lparr>recvq := []\<rparr>)
           \<and> groups w' = (groups w)(group (waiters w me) :=
                 (groups w (group (waiters w me)))\<lparr>which := Some (Waiter me), sema := False\<rparr>)
           \<and> waiters w' = (waiters w)(me := (waiters w me)\<lparr>rx_ok := Some (Some v, True)\<rparr>)"
proof -
  let ?g = "group (waiters w me)"
  let ?w' = "group_upd ?g (\<lambda>gr. gr\<lparr>sema := False\<rparr>)
               (waiter_upd me (\<lambda>r. r\<lparr>rx_ok := Some (Some v, True)\<rparr>)
                 (chan_upd c (\<lambda>ch. ch\<lparr>recvq := []\<rparr>)
                   (group_upd ?g (\<lambda>gr. gr\<lparr>which := Some (Waiter me)\<rparr>) w)))"
  have "trysend (acquire c w) c v = (Inr True, ?w')"
    using assms
    by (simp add: trysend_def try_to_win_def recv_wakeup_def wg_wakeup_def Let_def)
       (simp add: acquire_def release_def chan_upd_def group_upd_def waiter_upd_def fun_eq_iff)
  with assms(1) have "send w (Chan c) v = (Inr (), ?w')" by (simp add: send_def)
  moreover have "chans ?w' = (chans w)(c := (chans w c)\<lparr>recvq := []\<rparr>)"
    by (simp add: fun_eq_iff)
  moreover have "groups ?w' = (groups w)(?g := (groups w ?g)\<lparr>which := Some (Waiter me), sema := False\<rparr>)"
    by (simp add: fun_eq_iff)
  moreover have "waiters ?w' = (waiters w)(me := (waiters w me)\<lparr>rx_ok := Some (Some v, True)\<rparr>)"
    by (simp add: fun_eq_iff)
  ultimately show ?thesis by blast
qed

lemma recv_ok_pop:
  assumes "\<not> ch_mu (chans w c)" and "sendq (chans w c) = []" and "dataq (chans w c) = rx # rest"
  shows "recv_ok w (Chan c) = (Inr (Some rx, True), chan_upd c (\<lambda>ch. ch\<lparr>dataq := rest\<rparr>) w)"
proof -
  have "tryrecv (acquire c w) c
        = (Inr ((Some rx, True), True), chan_upd c (\<lambda>ch. ch\<lparr>dataq := rest\<rparr>) w)"
    using assms
    by (simp add: tryrecv_def acquire_def release_def chan_upd_def fun_eq_iff)
  with assms(1) show ?thesis by (simp add: recv_ok_def)
qed

lemma recv_ok_closed:
  assumes "\<not> ch_mu (chans w c)" and "closed (chans w c)" and "dataq (chans w c) = []"
  shows "recv_ok w (Chan c) = (Inr (None, False), w)"
  using assms by (simp add: recv_ok_def tryrecv_def release_acquire)

lemma recv_ok_park:
  assumes "\<not> ch_mu (chans w c)" and "\<not> closed (chans w c)" and "dataq (chans w c) = []"
    and "sendq (chans w c) = []"
  shows "\<exists>w'. recv_ok w (Chan c) = (Inl (Waits (nextg w) (nextw w)), w')"
  using assms
  by (simp add: recv_ok_def tryrecv_def new_WaitGroup_def new_RecvWaiting_def)

lemma expected_Suc_value:
  "m < length vs \<Longrightarrow> expected vs (Suc m) = expected vs m @ [(Some (vs ! m), True)]"
  by (simp add: expected_def take_Suc_conv_app_nth)

lemma expected_Suc_closed:
  "length vs \<le> m \<Longrightarrow> expected vs (Suc m) = expected vs m @ [(None, False)]"
  by (simp add: expected_def Suc_diff_le replicate_append_same)

lemma length_expected [simp]: "length (expected vs m) = m"
  by (simp add: expected_def)

lemma drop_take_snoc:
  "r \<le> k \<Longrightarrow> k < length vs \<Longrightarrow> drop r (take k vs) @ [vs ! k] = drop r (take (Suc k) vs)"
  by (simp add: take_Suc_conv_app_nth)

lemma drop_take_Cons:
  assumes "drop r (take k vs) = x # xs"
  shows "r < k \<and> r < length vs \<and> x = vs ! r \<and> xs = drop (Suc r) (take k vs)"
proof -
  have l: "r < length (take k vs)" using assms by (cases "r < length (take k vs)") auto
  from Cons_nth_drop_Suc [OF l]
  have "drop r (take k vs) = take k vs ! r # drop (Suc r) (take k vs)" by simp
  with assms l show ?thesis by auto
qed

lemma todo_Cons:
  assumes "todo st = drop (length vs - length (todo st)) vs" and "todo st = v # rest"
  shows "length vs - length (todo st) < length vs
       \<and> v = vs ! (length vs - length (todo st))
       \<and> length vs - length rest = Suc (length vs - length (todo st))
       \<and> rest = drop (Suc (length vs - length (todo st))) vs"
proof -
  let ?k = "length vs - length (todo st)"
  have le: "length (todo st) \<le> length vs"
    using assms(1) by (metis diff_le_self length_drop)
  with assms(2) have k: "?k < length vs" by simp
  then have "drop ?k vs = vs ! ?k # drop (Suc ?k) vs" by (simp add: Cons_nth_drop_Suc)
  with assms have "v = vs ! ?k" "rest = drop (Suc ?k) vs" by simp_all
  moreover have "length vs - length rest = Suc ?k" using assms(2) le by simp
  ultimately show ?thesis using k by simp
qed

lemma sender_send_inv:
  assumes inv: "fifo_inv C vs c st" and le: "length vs \<le> C" and td: "todo st = v # rest"
  shows "fifo_inv C vs c (sender_step c st)"
proof -
  let ?w = "fw st" and ?n = "length vs"
  let ?k = "?n - length (todo st)" and ?m = "length (seen st)"
  let ?r = "min ?m ?n"
  let ?ch = "chans ?w c"
  from inv have tdk: "todo st = drop ?k vs" by (simp add: fifo_inv_def Let_def)
  note tc = todo_Cons [OF tdk td]
  from tc have k: "?k < ?n" and v: "v = vs ! ?k" and k': "?n - length rest = Suc ?k"
    and rest: "rest = drop (Suc ?k) vs" by simp_all
  from inv td have nd: "\<not> sender_done st" by (auto simp: fifo_inv_def Let_def)
  from inv have base: "\<not> failed st" "seen st = expected vs ?m" "?r \<le> ?k"
    "cap ?ch = C" "\<not> ch_mu ?ch" "sendq ?ch = []" "closed ?ch = sender_done st"
    by (simp_all add: fifo_inv_def Let_def)
  have cappos: "?k < cap ?ch" using k le base(4) by simp
  have nm: "\<not> ?n < ?m" using inv nd by (auto simp: fifo_inv_def Let_def)
  show ?thesis
  proof (cases "blocked st")
    case None
    with inv have q: "recvq ?ch = []" "dataq ?ch = drop ?r (take ?k vs)"
      by (simp_all add: fifo_inv_def Let_def)
    have "length (dataq ?ch) < cap ?ch" using q(2) cappos by simp
    from send_buffer [OF base(5) _ this q(1), of v] base(7) nd
    have s: "send ?w (Chan c) v = (Inr (), chan_upd c (\<lambda>ch. ch\<lparr>dataq := dataq ch @ [v]\<rparr>) ?w)"
      by simp
    have st': "sender_step c st = st\<lparr>fw := chan_upd c (\<lambda>ch. ch\<lparr>dataq := dataq ch @ [v]\<rparr>) ?w, todo := rest\<rparr>"
      using td s by (simp add: sender_step_def)
    have d: "dataq ?ch @ [v] = drop ?r (take (Suc ?k) vs)"
      using q(2) v drop_take_snoc [OF base(3) k] by simp
    show ?thesis
      unfolding st' fifo_inv_def Let_def
      using base nd nm None q(1) d rest k' k by simp
  next
    case (Some p)
    obtain g me where p: "p = (g, me)" by (cases p) auto
    from inv Some p have wq: "?m \<le> ?n" "group (waiters ?w me) = g" "\<not> wg_mu (groups ?w g)"
      and alt: "recvq ?ch = [me] \<and> dataq ?ch = [] \<and> ?r = ?k
                  \<and> which (groups ?w g) = None \<and> sema (groups ?w g)
                \<or> recvq ?ch = [] \<and> which (groups ?w g) = Some (Waiter me) \<and> \<not> sema (groups ?w g)
                  \<and> ?r < ?k \<and> rx_ok (waiters ?w me) = Some (Some (vs ! ?r), True)
                  \<and> dataq ?ch = drop (Suc ?r) (take ?k vs)"
      using nd by (auto simp: fifo_inv_def Let_def)
    from alt show ?thesis
    proof
      assume a: "recvq ?ch = [me] \<and> dataq ?ch = [] \<and> ?r = ?k
                  \<and> which (groups ?w g) = None \<and> sema (groups ?w g)"
      have pos: "0 < cap ?ch" using cappos by simp
      from send_deliver [of ?w c me v] base(5,7) nd pos a wq(2,3)
      obtain w' where s: "send ?w (Chan c) v = (Inr (), w')"
        and c': "chans w' = (chans ?w)(c := ?ch\<lparr>recvq := []\<rparr>)"
        and g': "groups w' = (groups ?w)(g := (groups ?w g)\<lparr>which := Some (Waiter me), sema := False\<rparr>)"
        and w': "waiters w' = (waiters ?w)(me := (waiters ?w me)\<lparr>rx_ok := Some (Some v, True)\<rparr>)"
        by auto
      have st': "sender_step c st = st\<lparr>fw := w', todo := rest\<rparr>"
        using td s by (simp add: sender_step_def)
      show ?thesis
        unfolding st' fifo_inv_def Let_def
        using base nd nm Some p wq a rest k' k v by (simp add: c' g' w')
    next
      assume a: "recvq ?ch = [] \<and> which (groups ?w g) = Some (Waiter me) \<and> \<not> sema (groups ?w g)
                  \<and> ?r < ?k \<and> rx_ok (waiters ?w me) = Some (Some (vs ! ?r), True)
                  \<and> dataq ?ch = drop (Suc ?r) (take ?k vs)"
      then have "length (dataq ?ch) < cap ?ch" using cappos by simp
      from send_buffer [OF base(5) _ this, of v] base(7) nd a
      have s: "send ?w (Chan c) v = (Inr (), chan_upd c (\<lambda>ch. ch\<lparr>dataq := dataq ch @ [v]\<rparr>) ?w)"
        by simp
      have st': "sender_step c st = st\<lparr>fw := chan_upd c (\<lambda>ch. ch\<lparr>dataq := dataq ch @ [v]\<rparr>) ?w, todo := rest\<rparr>"
        using td s by (simp add: sender_step_def)
      have "Suc ?r \<le> ?k" using a by simp
      from drop_take_snoc [OF this k] a v
      have d: "dataq ?ch @ [v] = drop (Suc ?r) (take (Suc ?k) vs)" by simp
      show ?thesis
        unfolding st' fifo_inv_def Let_def
        using base nd nm Some p wq a d rest k' k by simp
    qed
  qed
qed

lemma close_empty_queues:
  assumes "\<not> ch_mu (chans w c)" "\<not> closed (chans w c)" "recvq (chans w c) = []" "sendq (chans w c) = []"
  shows "close w (Chan c) = (Inr (), chan_upd c (\<lambda>ch. ch\<lparr>closed := True\<rparr>) w)"
  using assms
  by (simp add: close_def close_drain_Nil Let_def)
     (simp add: acquire_def release_def chan_upd_def fun_eq_iff)

lemma close_one_receiver:
  assumes "\<not> ch_mu (chans w c)" "\<not> closed (chans w c)" "recvq (chans w c) = [me]" "sendq (chans w c) = []"
    "\<not> wg_mu (groups w (group (waiters w me)))" "which (groups w (group (waiters w me))) = None"
  shows "\<exists>w'. close w (Chan c) = (Inr (), w')
           \<and> chans w' = (chans w)(c := (chans w c)\<lparr>closed := True, recvq := []\<rparr>)
           \<and> groups w' = (groups w)(group (waiters w me) :=
                 (groups w (group (waiters w me)))\<lparr>which := Some (Waiter me), sema := False\<rparr>)
           \<and> waiters w' = (waiters w)(me := (waiters w me)\<lparr>rx_ok := Some (None, False)\<rparr>)"
proof -
  let ?g = "group (waiters w me)"
  let ?w' = "group_upd ?g (\<lambda>gr. gr\<lparr>sema := False\<rparr>)
               (waiter_upd me (\<lambda>r. r\<lparr>rx_ok := Some (None, False)\<rparr>)
                 (release c (chan_upd c (\<lambda>ch. ch\<lparr>sendq := []\<rparr>)
                   (chan_upd c (\<lambda>ch. ch\<lparr>recvq := []\<rparr>)
                     (group_upd ?g (\<lambda>gr. gr\<lparr>which := Some (Waiter me)\<rparr>)
                       (chan_upd c (\<lambda>ch. ch\<lparr>closed := True\<rparr>) (acquire c w)))))))"
  have g: "grp (chan_upd c (\<lambda>ch. ch\<lparr>closed := True\<rparr>) (acquire c w)) me = ?g"
    by (simp add: grp_def)
  have "close w (Chan c) = (Inr (), ?w')"
    using assms
    by (simp add: close_def Let_def close_drain_Cons g close_drain_Nil recv_wakeup_def
        wg_wakeup_def)
  moreover have "chans ?w' = (chans w)(c := (chans w c)\<lparr>closed := True, recvq := []\<rparr>)"
    using assms(1,4) by (simp add: fun_eq_iff)
  moreover have "groups ?w' = (groups w)(?g := (groups w ?g)\<lparr>which := Some (Waiter me), sema := False\<rparr>)"
    by (simp add: fun_eq_iff)
  moreover have "waiters ?w' = (waiters w)(me := (waiters w me)\<lparr>rx_ok := Some (None, False)\<rparr>)"
    by (simp add: fun_eq_iff)
  ultimately show ?thesis by blast
qed

lemma sender_close_inv:
  assumes inv: "fifo_inv C vs c st" and td: "todo st = []"
  shows "fifo_inv C vs c (sender_step c st)"
proof (cases "sender_done st")
  case True
  with inv td show ?thesis by (simp add: sender_step_def)
next
  case nd: False
  let ?w = "fw st" and ?n = "length vs"
  let ?m = "length (seen st)"
  let ?r = "min ?m ?n"
  let ?ch = "chans ?w c"
  from inv td have base: "\<not> failed st" "seen st = expected vs ?m"
    "cap ?ch = C" "\<not> ch_mu ?ch" "sendq ?ch = []" "\<not> closed ?ch"
    using nd by (simp_all add: fifo_inv_def Let_def)
  have nm: "\<not> ?n < ?m" using inv nd by (auto simp: fifo_inv_def Let_def)
  show ?thesis
  proof (cases "blocked st")
    case None
    with inv td have q: "recvq ?ch = []" "dataq ?ch = drop ?r (take ?n vs)"
      by (simp_all add: fifo_inv_def Let_def)
    from close_empty_queues [OF base(4,6) q(1) base(5)]
    have st': "sender_step c st = st\<lparr>fw := chan_upd c (\<lambda>ch. ch\<lparr>closed := True\<rparr>) ?w, sender_done := True\<rparr>"
      using td nd by (simp add: sender_step_def)
    show ?thesis
      unfolding st' fifo_inv_def Let_def
      using base nm None q td by simp
  next
    case (Some p)
    obtain g me where p: "p = (g, me)" by (cases p) auto
    from inv Some p td have wq: "?m \<le> ?n" "group (waiters ?w me) = g" "\<not> wg_mu (groups ?w g)"
      and alt: "recvq ?ch = [me] \<and> dataq ?ch = [] \<and> ?r = ?n
                  \<and> which (groups ?w g) = None \<and> sema (groups ?w g)
                \<or> recvq ?ch = [] \<and> which (groups ?w g) = Some (Waiter me) \<and> \<not> sema (groups ?w g)
                  \<and> ?r < ?n \<and> rx_ok (waiters ?w me) = Some (Some (vs ! ?r), True)
                  \<and> dataq ?ch = drop (Suc ?r) (take ?n vs)"
      using nd by (auto simp: fifo_inv_def Let_def)
    from alt show ?thesis
    proof
      assume a: "recvq ?ch = [me] \<and> dataq ?ch = [] \<and> ?r = ?n
                  \<and> which (groups ?w g) = None \<and> sema (groups ?w g)"
      from close_one_receiver [of ?w c me] base(4,5,6) a wq(2,3)
      obtain w' where s: "close ?w (Chan c) = (Inr (), w')"
        and c': "chans w' = (chans ?w)(c := ?ch\<lparr>closed := True, recvq := []\<rparr>)"
        and g': "groups w' = (groups ?w)(g := (groups ?w g)\<lparr>which := Some (Waiter me), sema := False\<rparr>)"
        and w': "waiters w' = (waiters ?w)(me := (waiters ?w me)\<lparr>rx_ok := Some (None, False)\<rparr>)"
        by auto
      have st': "sender_step c st = st\<lparr>fw := w', sender_done := True\<rparr>"
        using td nd s by (simp add: sender_step_def)
      show ?thesis
        unfolding st' fifo_inv_def Let_def
        using base nm Some p wq a td by (simp add: c' g' w')
    next
      assume a: "recvq ?ch = [] \<and> which (groups ?w g) = Some (Waiter me) \<and> \<not> sema (groups ?w g)
                  \<and> ?r < ?n \<and> rx_ok (waiters ?w me) = Some (Some (vs ! ?r), True)
                  \<and> dataq ?ch = drop (Suc ?r) (take ?n vs)"
      from close_empty_queues [OF base(4,6) _ base(5)] a
      have st': "sender_step c st = st\<lparr>fw := chan_upd c (\<lambda>ch. ch\<lparr>closed := True\<rparr>) ?w, sender_done := True\<rparr>"
        using td nd by (simp add: sender_step_def)
      show ?thesis
        unfolding st' fifo_inv_def Let_def
        using base nm Some p wq a td by simp
    qed
  qed
qed

lemma sender_step_inv:
  "fifo_inv C vs c st \<Longrightarrow> length vs \<le> C \<Longrightarrow> fifo_inv C vs c (sender_step c st)"
  by (cases "todo st") (simp_all add: sender_close_inv sender_send_inv)

lemma receiver_idle_inv:
  assumes inv: "fifo_inv C vs c st" and wt: "blocked st = None"
  shows "fifo_inv C vs c (receiver_step c st)
       \<and> (sender_done st \<longrightarrow> length (seen (receiver_step c st)) = Suc (length (seen st)))"
proof -
  let ?w = "fw st" and ?n = "length vs"
  let ?k = "?n - length (todo st)" and ?m = "length (seen st)"
  let ?r = "min ?m ?n"
  let ?ch = "chans ?w c"
  from inv wt have base: "\<not> failed st" "seen st = expected vs ?m" "?r \<le> ?k"
    "cap ?ch = C" "\<not> ch_mu ?ch" "sendq ?ch = []" "closed ?ch = sender_done st"
    "todo st = drop ?k vs" "?n < ?m \<longrightarrow> sender_done st" "sender_done st \<longrightarrow> todo st = []"
    "recvq ?ch = []" "dataq ?ch = drop ?r (take ?k vs)"
    by (simp_all add: fifo_inv_def Let_def)
  show ?thesis
  proof (cases "dataq ?ch")
    case (Cons rx rest)
    with base(12) have "drop ?r (take ?k vs) = rx # rest" by simp
    from drop_take_Cons [OF this]
    have d: "?r < ?k" "?r < ?n" "rx = vs ! ?r" "rest = drop (Suc ?r) (take ?k vs)" by simp_all
    then have mn: "?m < ?n" "?r = ?m" by simp_all
    from recv_ok_pop [OF base(5,6) Cons]
    have st': "receiver_step c st
               = st\<lparr>fw := chan_upd c (\<lambda>ch. ch\<lparr>dataq := rest\<rparr>) ?w, seen := seen st @ [(Some rx, True)]\<rparr>"
      using wt by (simp add: receiver_step_def)
    have e: "seen st @ [(Some rx, True)] = expected vs (Suc ?m)"
      using base(2) d(3) mn expected_Suc_value [OF mn(1)] by simp
    have "fifo_inv C vs c (receiver_step c st)"
      unfolding st' fifo_inv_def Let_def
      using base wt d mn e by simp
    then show ?thesis by (simp add: st')
  next
    case Nil
    with base(12,3) have rk: "?r = ?k"
      by (metis (no_types, lifting) diff_is_0_eq diff_le_self le_antisym length_0_conv length_drop
          length_take min.absorb2)
    show ?thesis
    proof (cases "sender_done st")
      case True
      with base have k: "?k = ?n" by simp
      with rk have mn: "?n \<le> ?m" by simp
      from recv_ok_closed [OF base(5) _ Nil] base(7) True
      have st': "receiver_step c st = st\<lparr>fw := ?w, seen := seen st @ [(None, False)]\<rparr>"
        using wt by (simp add: receiver_step_def)
      have e: "seen st @ [(None, False)] = expected vs (Suc ?m)"
        using base(2) expected_Suc_closed [OF mn] by simp
      have "fifo_inv C vs c (receiver_step c st)"
        unfolding st' fifo_inv_def Let_def
        using base wt True k mn e Nil by simp
      then show ?thesis by (simp add: st')
    next
      case nd: False
      with base have nc: "\<not> closed ?ch" and mn: "?m \<le> ?n" by auto
      from recv_ok_park [OF base(5) nc Nil base(6)]
      obtain w' where s: "recv_ok ?w (Chan c) = (Inl (Waits (nextg ?w) (nextw ?w)), w')" by blast
      note pk = recv_parks [OF s]
      have st': "receiver_step c st = st\<lparr>fw := w', blocked := Some (nextg ?w, nextw ?w)\<rparr>"
        using wt s by (simp add: receiver_step_def)
      have "fifo_inv C vs c (receiver_step c st)"
        unfolding st' fifo_inv_def Let_def
        using base wt nd mn rk Nil pk by simp
      then show ?thesis using nd by simp
    qed
  qed
qed

lemma receiver_blocked_inv:
  assumes inv: "fifo_inv C vs c st" and wt: "blocked st = Some (g, me)"
  shows "fifo_inv C vs c (receiver_step c st)
       \<and> (sender_done st \<longrightarrow> length (seen (receiver_step c st)) = Suc (length (seen st)))"
proof -
  let ?w = "fw st" and ?n = "length vs"
  let ?k = "?n - length (todo st)" and ?m = "length (seen st)"
  let ?r = "min ?m ?n"
  let ?ch = "chans ?w c"
  from inv have base0: "\<not> failed st" "seen st = expected vs ?m" "?r \<le> ?k"
    "cap ?ch = C" "\<not> ch_mu ?ch" "sendq ?ch = []" "closed ?ch = sender_done st"
    "todo st = drop ?k vs" "sender_done st \<longrightarrow> todo st = []"
    by (simp_all add: fifo_inv_def Let_def)
  from inv wt have base1: "?m \<le> ?n" "group (waiters ?w me) = g" "\<not> wg_mu (groups ?w g)"
    by (simp_all add: fifo_inv_def Let_def)
  note base = base0 base1
  from inv wt have alt:
    "recvq ?ch = [me] \<and> dataq ?ch = [] \<and> ?r = ?k \<and> \<not> sender_done st
       \<and> which (groups ?w g) = None \<and> sema (groups ?w g)
     \<or> recvq ?ch = [] \<and> which (groups ?w g) = Some (Waiter me) \<and> \<not> sema (groups ?w g)
       \<and> (?r < ?k \<and> rx_ok (waiters ?w me) = Some (Some (vs ! ?r), True)
              \<and> dataq ?ch = drop (Suc ?r) (take ?k vs)
          \<or> ?r = ?n \<and> sender_done st \<and> rx_ok (waiters ?w me) = Some (None, False)
              \<and> dataq ?ch = [])"
    by (auto simp: fifo_inv_def Let_def)
  have rm: "?r = ?m" using base(10) by simp
  from alt show ?thesis
  proof (elim disjE conjE)
    assume a: "recvq ?ch = [me]" "dataq ?ch = []" "?r = ?k" "\<not> sender_done st"
      "which (groups ?w g) = None" "sema (groups ?w g)"
    have "receiver_step c st = st"
      using wt a(6) by (simp add: receiver_step_def recv_wait_def)
    with inv a(4) show ?thesis by simp
  next
    assume a: "recvq ?ch = []" "which (groups ?w g) = Some (Waiter me)" "\<not> sema (groups ?w g)"
      "?r < ?k" "rx_ok (waiters ?w me) = Some (Some (vs ! ?r), True)"
      "dataq ?ch = drop (Suc ?r) (take ?k vs)"
    let ?w1 = "group_upd g (\<lambda>gr. gr\<lparr>sema := True\<rparr>) ?w"
    have st': "receiver_step c st
               = st\<lparr>fw := ?w1, blocked := None, seen := seen st @ [(Some (vs ! ?r), True)]\<rparr>"
      using wt a by (simp add: receiver_step_def recv_wait_def Let_def)
    have mn: "?m < ?n" using a(4) rm by simp
    have e: "seen st @ [(Some (vs ! ?r), True)] = expected vs (Suc ?m)"
      using base(2) rm expected_Suc_value [OF mn] by simp
    have "fifo_inv C vs c (receiver_step c st)"
      unfolding st' fifo_inv_def Let_def
      using base a mn e rm by simp
    then show ?thesis by (simp add: st')
  next
    assume a: "recvq ?ch = []" "which (groups ?w g) = Some (Waiter me)" "\<not> sema (groups ?w g)"
      "?r = ?n" "sender_done st" "rx_ok (waiters ?w me) = Some (None, False)" "dataq ?ch = []"
    let ?w1 = "group_upd g (\<lambda>gr. gr\<lparr>sema := True\<rparr>) ?w"
    have st': "receiver_step c st
               = st\<lparr>fw := ?w1, blocked := None, seen := seen st @ [(None, False)]\<rparr>"
      using wt a by (simp add: receiver_step_def recv_wait_def Let_def)
    have mn: "?m = ?n" using a(4) rm by simp
    have e: "seen st @ [(None, False)] = expected vs (Suc ?m)"
      using base(2) expected_Suc_closed [of vs ?m] mn by simp
    have "fifo_inv C vs c (receiver_step c st)"
      unfolding st' fifo_inv_def Let_def
      using base a mn e by simp
    then show ?thesis by (simp add: st')
  qed
qed

lemma receiver_step_inv:
  assumes "fifo_inv C vs c st"
  shows "fifo_inv C vs c (receiver_step c st)
       \<and> (sender_done st \<longrightarrow> length (seen (receiver_step c st)) = Suc (length (seen st)))"
proof (cases "blocked st")
  case None
  with assms show ?thesis by (rule receiver_idle_inv)
next
  case (Some p)
  then obtain g me where "blocked st = Some (g, me)" by (cases p) auto
  with assms show ?thesis by (rule receiver_blocked_inv)
qed

lemma fifo_init_inv: "fifo_inv C vs 0 (fifo_init C vs)"
  by (simp add: fifo_inv_def fifo_init_def new_pychan_def world0_def pychan_init_def expected_def)

lemma fifo_step_inv:
  "length vs \<le> C \<Longrightarrow> fifo_inv C vs c st \<Longrightarrow> fifo_inv C vs c (fifo_step c st b)"
  by (simp add: fifo_step_def sender_step_inv receiver_step_inv)

lemma fifo_run_snoc: "fifo_run C vs (sched @ [b]) = fifo_step 0 (fifo_run C vs sched) b"
  by (simp add: fifo_run_def)

lemma fifo_run_inv: "length vs \<le> C \<Longrightarrow> fifo_inv C vs 0 (fifo_run C vs sched)"
proof (induction sched rule: rev_induct)
  case Nil
  then show ?case by (simp add: fifo_run_def fifo_init_inv)
next
  case (snoc b sched)
  then show ?case by (simp add: fifo_run_snoc fifo_step_inv)
qed

lemma sender_step_frame:
  "seen (sender_step c st) = seen st"
  "\<not> failed (sender_step c st) \<Longrightarrow> todo st = v # rest \<Longrightarrow>
     todo (sender_step c st) = rest \<and> sender_done (sender_step c st) = sender_done st"
  "\<not> failed (sender_step c st) \<Longrightarrow> todo st = [] \<Longrightarrow>
     todo (sender_step c st) = [] \<and> sender_done (sender_step c st)"
  by (auto simp: sender_step_def split: list.splits prod.splits sum.splits if_splits)

lemma receiver_step_frame:
  "todo (receiver_step c st) = todo st"
  "sender_done (receiver_step c st) = sender_done st"
  "length (seen (receiver_step c st)) \<le> Suc (length (seen st))"
  by (auto simp: receiver_step_def split: option.splits prod.splits sum.splits stop.splits)

lemma sender_progress:
  assumes inv: "fifo_inv C vs c st" and le: "length vs \<le> C"
  shows "progress vs (sender_step c st) = min (Suc (length vs)) (Suc (progress vs st))"
proof -
  from sender_step_inv [OF inv le] have nf: "\<not> failed (sender_step c st)"
    by (simp add: fifo_inv_def Let_def)
  from inv have td: "todo st = drop (length vs - length (todo st)) vs"
    and dn: "sender_done st \<longrightarrow> todo st = []"
    by (simp_all add: fifo_inv_def Let_def)
  have l: "length (todo st) \<le> length vs" using td by (metis diff_le_self length_drop)
  show ?thesis
  proof (cases "todo st")
    case Nil
    from sender_step_frame(3) [OF nf Nil] Nil show ?thesis by (simp add: progress_def)
  next
    case (Cons v rest)
    with dn have "\<not> sender_done st" by auto
    with sender_step_frame(2) [OF nf Cons] Cons l show ?thesis by (simp add: progress_def)
  qed
qed

lemma fifo_run_progress:
  assumes "length vs \<le> C"
  shows "progress vs (fifo_run C vs sched) = min (Suc (length vs)) (sender_steps sched)"
proof (induction sched rule: rev_induct)
  case Nil
  show ?case by (simp add: fifo_run_def fifo_init_def progress_def sender_steps_def)
next
  case (snoc b sched)
  let ?st = "fifo_run C vs sched"
  have inv: "fifo_inv C vs 0 ?st" using assms by (rule fifo_run_inv)
  then have nf: "\<not> failed ?st" by (simp add: fifo_inv_def Let_def)
  show ?case
  proof (cases b)
    case True
    with nf have "fifo_run C vs (sched @ [b]) = sender_step 0 ?st"
      by (simp add: fifo_run_snoc fifo_step_def)
    with sender_progress [OF inv assms] snoc.IH True show ?thesis
      by (simp add: sender_steps_def)
  next
    case False
    with nf have "fifo_run C vs (sched @ [b]) = receiver_step 0 ?st"
      by (simp add: fifo_run_snoc fifo_step_def)
    with snoc.IH False show ?thesis
      by (simp add: sender_steps_def progress_def receiver_step_frame)
  qed
qed

lemma fifo_run_done:
  assumes "length vs \<le> C"
  shows "sender_done (fifo_run C vs sched) = (length vs < sender_steps sched)"
proof -
  let ?st = "fifo_run C vs sched"
  have inv: "fifo_inv C vs 0 ?st" using assms by (rule fifo_run_inv)
  then have td: "todo ?st = drop (length vs - length (todo ?st)) vs"
    and dn: "sender_done ?st \<longrightarrow> todo ?st = []"
    by (simp_all add: fifo_inv_def Let_def)
  have l: "length (todo ?st) \<le> length vs" using td by (metis diff_le_self length_drop)
  from fifo_run_progress [OF assms, of sched] dn l show ?thesis
    by (auto simp: progress_def split: if_splits)
qed

lemma fifo_run_seen_le:
  assumes "length vs \<le> C"
  shows "length (seen (fifo_run C vs sched)) \<le> receiver_steps sched"
proof (induction sched rule: rev_induct)
  case Nil
  show ?case by (simp add: fifo_run_def fifo_init_def)
next
  case (snoc b sched)
  have "length (seen (fifo_step 0 (fifo_run C vs sched) b))
        \<le> length (seen (fifo_run C vs sched)) + (if b then 0 else 1)"
    using receiver_step_frame(3) [of 0 "fifo_run C vs sched"]
    by (simp add: fifo_step_def sender_step_frame(1))
  with snoc.IH show ?case by (cases b) (simp_all add: fifo_run_snoc receiver_steps_def)
qed

lemma fifo_run_drained:
  assumes le: "length vs \<le> C" and dn: "sender_done (fifo_run C vs sched)"
  shows "sender_done (fifo_run C vs (sched @ replicate j False))
       \<and> length (seen (fifo_run C vs (sched @ replicate j False)))
           = length (seen (fifo_run C vs sched)) + j"
proof (induction j)
  case 0
  from dn show ?case by simp
next
  case (Suc j)
  let ?st = "fifo_run C vs (sched @ replicate j False)"
  have inv: "fifo_inv C vs 0 ?st" using le by (rule fifo_run_inv)
  then have nf: "\<not> failed ?st" by (simp add: fifo_inv_def Let_def)
  have "sched @ replicate (Suc j) False = (sched @ replicate j False) @ [False]"
    by (simp add: replicate_append_same)
  then have "fifo_run C vs (sched @ replicate (Suc j) False) = receiver_step 0 ?st"
    using nf by (simp only: fifo_run_snoc) (simp add: fifo_step_def)
  with receiver_step_inv [OF inv] Suc.IH show ?case
    by (simp add: receiver_step_frame)
qed

text \<open>
  C1. A channel of capacity \<open>C\<close>, a sender that sends the \<open>n \<le> C\<close> values \<open>vs\<close> in order
  and then closes the channel, and a receiver that calls \<open>recv_\<close> repeatedly, run under
  any schedule of the two. At every moment:
  \<^item> no call has raised, and the sender was never parked;
  \<^item> the pairs the receiver has got so far are the first ones of
    \<open>(v1, True), ..., (vn, True), (None, False), (None, False), ...\<close>, so no value was
    lost, duplicated or reordered, and nothing but \<open>(None, False)\<close> follows the values;
  \<^item> the receiver has at most one pair for each of its steps;
  \<^item> the close has returned exactly when the sender has made more than \<open>n\<close> steps;
  \<^item> once the close has returned, each further step of the receiver returns one more
    pair: it does not park.

  The witness is scenario S2: capacity 3, the values 7, 8, 9, then five calls of
  \<open>recv_\<close>.
\<close>

theorem fifo_closed_drain:
  assumes "length vs \<le> C"
  shows "\<not> failed (fifo_run C vs sched)
       \<and> seen (fifo_run C vs sched) = expected vs (length (seen (fifo_run C vs sched)))
       \<and> length (seen (fifo_run C vs sched)) \<le> receiver_steps sched
       \<and> sender_done (fifo_run C vs sched) = (length vs < sender_steps sched)
       \<and> (length vs < sender_steps sched \<longrightarrow>
            length (seen (fifo_run C vs (sched @ replicate j False)))
              = length (seen (fifo_run C vs sched)) + j)"
proof -
  have inv: "fifo_inv C vs 0 (fifo_run C vs sched)" using assms by (rule fifo_run_inv)
  then have "\<not> failed (fifo_run C vs sched)"
    and "seen (fifo_run C vs sched) = expected vs (length (seen (fifo_run C vs sched)))"
    by (simp_all add: fifo_inv_def Let_def)
  moreover note fifo_run_seen_le [OF assms, of sched] fifo_run_done [OF assms, of sched]
  moreover have "length (seen (fifo_run C vs (sched @ replicate j False)))
              = length (seen (fifo_run C vs sched)) + j" if "length vs < sender_steps sched"
    using fifo_run_drained [OF assms, of sched j] fifo_run_done [OF assms, of sched] that by simp
  ultimately show ?thesis by blast
qed

theorem fifo_closed_drain_witness:
  "length [7, 8, 9 :: nat] \<le> 3
   \<and> length [7, 8, 9 :: nat] < sender_steps [True, True, True, True]
   \<and> seen (fifo_run 3 [7, 8, 9 :: nat] ([True, True, True, True] @ replicate 5 False))
       = [(Some 7, True), (Some 8, True), (Some 9, True), (None, False), (None, False)]"
proof -
  let ?vs = "[7, 8, 9 :: nat]"
  let ?a = "[True, True, True, True]"
  have le: "length ?vs \<le> 3" by simp
  have s: "length ?vs < sender_steps ?a" by (simp add: sender_steps_def)
  from fifo_closed_drain [OF le, of ?a 5] s
  have "length (seen (fifo_run 3 ?vs ?a)) \<le> receiver_steps ?a"
    and "length (seen (fifo_run 3 ?vs (?a @ replicate 5 False))) = length (seen (fifo_run 3 ?vs ?a)) + 5"
    by simp_all
  then have l: "length (seen (fifo_run 3 ?vs (?a @ replicate 5 False))) = 5"
    by (simp add: receiver_steps_def)
  from fifo_closed_drain [OF le, of "?a @ replicate 5 False" 0] l
  have "seen (fifo_run 3 ?vs (?a @ replicate 5 False)) = expected ?vs 5" by simp
  then have "seen (fifo_run 3 ?vs (?a @ replicate 5 False))
             = [(Some 7, True), (Some 8, True), (Some 9, True), (None, False), (None, False)]"
    by (simp add: expected_def numeral_eq_Suc)
  with le s show ?thesis by blast
qed

end
